theory Spec2Isabelle
  imports Main "HOL-Library.Multiset"
begin

section \<open>Python strings and integers\<close>

text \<open>
  A Python \<open>str\<close> is a sequence of code points. It is modelled as a \<open>string\<close>, one
  \<open>char\<close> per code point, which covers the code points below 256 (ASCII and Latin-1);
  \<open>length\<close> is Python's \<open>len\<close>. The classification of characters below is the one
  Python applies to these code points.
\<close>

text \<open>\<open>str.isspace\<close> on one code point: TAB, LF, VT, FF, CR, FS, GS, RS, US, space, NEL, NBSP.\<close>

definition is_space :: "char \<Rightarrow> bool" where
  "is_space c \<longleftrightarrow> (of_char c :: nat) \<in> {9, 10, 11, 12, 13, 28, 29, 30, 31, 32, 133, 160}"

text \<open>The decimal digits (\<open>\d\<close>, and the digits \<open>int\<close> accepts): below 256 only \<open>0\<close> to \<open>9\<close>.\<close>

definition is_digit :: "char \<Rightarrow> bool" where
  "is_digit c \<longleftrightarrow> 48 \<le> (of_char c :: nat) \<and> (of_char c :: nat) \<le> 57"

definition digit_val :: "char \<Rightarrow> nat" where
  "digit_val c = of_char c - 48"

text \<open>\<open>s.strip()\<close> and \<open>s.strip(chars)\<close>.\<close>

definition strip_by :: "(char \<Rightarrow> bool) \<Rightarrow> string \<Rightarrow> string" where
  "strip_by P s = rev (dropWhile P (rev (dropWhile P s)))"

definition py_strip :: "string \<Rightarrow> string" where
  "py_strip s = strip_by is_space s"

definition strip_chars :: "string \<Rightarrow> string \<Rightarrow> string" where
  "strip_chars chars s = strip_by (\<lambda>c. c \<in> set chars) s"

text \<open>\<open>s.split(sep)\<close> for a separator of one character: never an empty list.\<close>

fun split_on :: "char \<Rightarrow> string \<Rightarrow> string list" where
  "split_on sep [] = [[]]"
| "split_on sep (c # cs) =
     (if c = sep then [] # split_on sep cs
      else (case split_on sep cs of [] \<Rightarrow> [[c]] | p # ps \<Rightarrow> (c # p) # ps))"

text \<open>\<open>s.split(sep, 1)\<close> when \<open>sep\<close> occurs in \<open>s\<close>: the text before and after its first occurrence.\<close>

definition split_first :: "char \<Rightarrow> string \<Rightarrow> string \<times> string" where
  "split_first sep s = (takeWhile (\<lambda>c. c \<noteq> sep) s, tl (dropWhile (\<lambda>c. c \<noteq> sep) s))"

text \<open>\<open>sep.join(xs)\<close>.\<close>

fun join :: "string \<Rightarrow> string list \<Rightarrow> string" where
  "join sep [] = []"
| "join sep [x] = x"
| "join sep (x # y # ys) = x @ sep @ join sep (y # ys)"

text \<open>
  \<open>int(s)\<close> for a \<open>str\<close>, \<open>None\<close> for \<open>ValueError\<close>: surrounding whitespace is skipped, one
  sign is allowed, then decimal digits, where single underscores may stand between digits.
  The whitespace \<open>int\<close> skips is narrower than that of \<open>str.strip\<close>: TAB, LF, VT, FF, CR,
  space, NEL and NBSP, but not FS, GS, RS and US, on which \<open>int\<close> raises. CPython
  refuses a literal of more than \<open>sys.int_max_str_digits\<close> digits (4300 unless
  reconfigured).
\<close>

definition is_int_space :: "char \<Rightarrow> bool" where
  "is_int_space c \<longleftrightarrow> (of_char c :: nat) \<in> {9, 10, 11, 12, 13, 32, 133, 160}"

definition int_max_str_digits :: nat where
  "int_max_str_digits = 4300"

fun double_underscore :: "string \<Rightarrow> bool" where
  "double_underscore (a # b # cs) = ((a = CHR ''_'' \<and> b = CHR ''_'') \<or> double_underscore (b # cs))"
| "double_underscore _ = False"

definition digits_value :: "string \<Rightarrow> nat" where
  "digits_value ds = foldl (\<lambda>a c. 10 * a + digit_val c) 0 ds"

definition py_int_digits :: "string \<Rightarrow> nat option" where
  "py_int_digits b =
     (if b = [] \<or> \<not> list_all (\<lambda>c. is_digit c \<or> c = CHR ''_'') b
         \<or> hd b = CHR ''_'' \<or> last b = CHR ''_'' \<or> double_underscore b
         \<or> int_max_str_digits < length (filter is_digit b)
      then None
      else Some (digits_value (filter is_digit b)))"

definition py_int :: "string \<Rightarrow> int option" where
  "py_int s =
     (case strip_by is_int_space s of
        [] \<Rightarrow> None
      | c # r \<Rightarrow>
          if c = CHR ''-'' then map_option (\<lambda>n. - int n) (py_int_digits r)
          else if c = CHR ''+'' then map_option int (py_int_digits r)
          else map_option int (py_int_digits (c # r)))"

text \<open>\<open>str(n)\<close> for an \<open>int\<close>, as an f-string renders it.\<close>

definition digit_char :: "nat \<Rightarrow> char" where
  "digit_char d = ''0123456789'' ! d"

function str_nat :: "nat \<Rightarrow> string" where
  "str_nat n = (if n < 10 then [digit_char n] else str_nat (n div 10) @ [digit_char (n mod 10)])"
  by pat_completeness auto
termination
  by (relation "measure id") auto

declare str_nat.simps [simp del]

definition str_int :: "int \<Rightarrow> string" where
  "str_int i = (if i < 0 then CHR ''-'' # str_nat (nat (- i)) else str_nat (nat i))"

section \<open>Range parsing\<close>

datatype error = ValueError | Raised string

text \<open>
  \<open>ValueError\<close> stands for every \<open>ValueError\<close> the code raises (the message is not modelled);
  \<open>Raised msg\<close> is an exception of a format decoder whose \<open>str\<close> is \<open>msg\<close>.
\<close>

text \<open>
  One pass of the loop of \<open>parse_numeric_range\<close>: the numbers one comma-separated part
  adds to \<open>nums\<close>, \<open>None\<close> when an \<open>int(...)\<close> of the part raises. \<open>range(a, b + 1)\<close> holds
  the integers from \<open>a\<close> to \<open>b\<close>, none when \<open>b < a\<close>.
\<close>

definition range_part :: "string \<Rightarrow> int set option" where
  "range_part p =
     (let part = py_strip p in
      if CHR ''-'' \<in> set part then
        (case split_first CHR ''-'' part of (start, end) \<Rightarrow>
           (case py_int start of
              None \<Rightarrow> None
            | Some a \<Rightarrow>
                (case py_int end of
                   None \<Rightarrow> None
                 | Some b \<Rightarrow> Some (set [a..b]))))
      else map_option (\<lambda>n. {n}) (py_int part))"

fun parse_parts :: "string list \<Rightarrow> int set \<Rightarrow> error + int set" where
  "parse_parts [] nums = Inr nums"
| "parse_parts (p # ps) nums =
     (case range_part p of
        None \<Rightarrow> Inl ValueError
      | Some new \<Rightarrow> parse_parts ps (nums \<union> new))"

definition parse_numeric_range :: "string \<Rightarrow> error + int set" where
  "parse_numeric_range s = parse_parts (split_on CHR '','' s) {}"

section \<open>Section filtering\<close>

type_synonym sect = "string \<times> string"

text \<open>
  \<open>[lines[j - 1] for j in sorted(line_range) if 1 <= j <= len(lines)]\<close>: the guard keeps
  every index inside the list.
\<close>

definition select_lines :: "int set \<Rightarrow> string list \<Rightarrow> string list" where
  "select_lines line_range lines =
     map (\<lambda>j. lines ! nat (j - 1))
       (filter (\<lambda>j. 1 \<le> j \<and> j \<le> int (length lines)) (sorted_list_of_set line_range))"

text \<open>
  The loop of the branch for \<open>.docx\<close>, \<open>.odt\<close> and \<open>.rtf\<close>. \<open>min\<close> and \<open>max\<close> of an empty
  set raise \<open>ValueError\<close>.
\<close>

fun filter_by_lines :: "int set \<Rightarrow> sect list \<Rightarrow> sect list \<Rightarrow> error + sect list" where
  "filter_by_lines line_range [] filtered = Inr filtered"
| "filter_by_lines line_range ((label, text) # rest) filtered =
     (let lines = split_on (CHR 0x0A) text;
          selected = select_lines line_range lines
      in if selected \<noteq> [] then
           (if line_range = {} then Inl ValueError
            else filter_by_lines line_range rest
                   (filtered @ [(label @ '' lines '' @ str_int (Min line_range) @ ''-''
                                   @ str_int (Max line_range),
                                 join [CHR 0x0A] selected)]))
         else filter_by_lines line_range rest filtered)"

text \<open>The three local variables of the branch for \<open>.xlsx\<close> and \<open>.ods\<close>.\<close>

record selector =
  names :: "string set"
  indices :: "int set"
  row_range :: "int set option"

text \<open>The \<open>try\<close> block of the selector loop: an index, a range of indices, or a sheet name.\<close>

definition add_sheet_part :: "string \<Rightarrow> selector \<Rightarrow> selector" where
  "add_sheet_part part sel =
     (case py_int part of
        Some n \<Rightarrow> sel\<lparr>indices := insert n (indices sel)\<rparr>
      | None \<Rightarrow>
          if CHR ''-'' \<notin> set part then sel\<lparr>names := insert part (names sel)\<rparr>
          else (case parse_numeric_range part of
                  Inr nums \<Rightarrow> sel\<lparr>indices := indices sel \<union> nums\<rparr>
                | Inl _ \<Rightarrow> sel\<lparr>names := insert part (names sel)\<rparr>))"

fun parse_sheet_parts :: "string list \<Rightarrow> selector \<Rightarrow> error + selector" where
  "parse_sheet_parts [] sel = Inr sel"
| "parse_sheet_parts (p # ps) sel =
     (let part = strip_chars [CHR 0x27, CHR 0x22] (py_strip p) in
      if CHR '':'' \<in> set part then
        (case split_first CHR '':'' part of (sheet_part, row_part) \<Rightarrow>
           (case parse_numeric_range row_part of
              Inl e \<Rightarrow> Inl e
            | Inr rows \<Rightarrow>
                parse_sheet_parts ps (add_sheet_part sheet_part (sel\<lparr>row_range := Some rows\<rparr>))))
      else parse_sheet_parts ps (add_sheet_part part sel))"

definition parse_sheet_selector :: "string \<Rightarrow> error + selector" where
  "parse_sheet_selector range_str =
     parse_sheet_parts (split_on CHR '','' range_str) \<lparr>names = {}, indices = {}, row_range = None\<rparr>"

text \<open>\<open>s.removeprefix(p)\<close> and \<open>s.removesuffix(p)\<close>.\<close>

definition removeprefix :: "string \<Rightarrow> string \<Rightarrow> string" where
  "removeprefix p s = (if take (length p) s = p then drop (length p) s else s)"

definition removesuffix :: "string \<Rightarrow> string \<Rightarrow> string" where
  "removesuffix p s =
     (if p \<noteq> [] \<and> length p \<le> length s \<and> drop (length s - length p) s = p
      then take (length s - length p) s else s)"

definition sheet_name :: "string \<Rightarrow> string" where
  "sheet_name label = removesuffix [CHR 0x27] (removeprefix (''sheet '' @ [CHR 0x27]) label)"

text \<open>The loop over \<open>enumerate(sections, 1)\<close>; \<open>i\<close> is the position of the next section.\<close>

fun filter_sheets :: "selector \<Rightarrow> int \<Rightarrow> sect list \<Rightarrow> sect list \<Rightarrow> error + sect list" where
  "filter_sheets sel i [] filtered = Inr filtered"
| "filter_sheets sel i ((label, text) # rest) filtered =
     (if i \<in> indices sel \<or> sheet_name label \<in> names sel then
        (case row_range sel of
           Some rows \<Rightarrow>
             (let lines = split_on (CHR 0x0A) text;
                  selected = select_lines rows lines
              in if rows = {} then Inl ValueError
                 else filter_sheets sel (i + 1) rest
                        (filtered @ [(label @ '' rows '' @ str_int (Min rows) @ ''-''
                                        @ str_int (Max rows),
                                      join [CHR 0x0A] selected)]))
         | None \<Rightarrow> filter_sheets sel (i + 1) rest (filtered @ [(label, text)]))
      else filter_sheets sel (i + 1) rest filtered)"

text \<open>
  \<open>re.match(r".*?(\d+)$", label)\<close>, its group 1: \<open>$\<close> matches at the end of the label or
  before a line feed that ends it, the lazy \<open>.*?\<close> takes the shortest prefix, which \<open>.\<close>
  keeps free of line feeds, and \<open>\d+\<close> takes all digits up to \<open>$\<close>.
\<close>

definition trailing_digits :: "string \<Rightarrow> string" where
  "trailing_digits s = rev (takeWhile is_digit (rev s))"

definition match_section_number :: "string \<Rightarrow> string option" where
  "match_section_number label =
     (let body = (if label \<noteq> [] \<and> last label = CHR 0x0A then butlast label else label);
          ds = trailing_digits body;
          pre = take (length body - length ds) body
      in if ds = [] \<or> CHR 0x0A \<in> set pre then None else Some ds)"

definition extract_section_number :: "string \<Rightarrow> error + int option" where
  "extract_section_number label =
     (case match_section_number label of
        None \<Rightarrow> Inr None
      | Some ds \<Rightarrow> (case py_int ds of None \<Rightarrow> Inl ValueError | Some n \<Rightarrow> Inr (Some n)))"

text \<open>
  The list comprehension of the last branch; \<open>None in indices\<close> is false for a set of
  integers.
\<close>

fun filter_numbered :: "int set \<Rightarrow> sect list \<Rightarrow> error + sect list" where
  "filter_numbered nums [] = Inr []"
| "filter_numbered nums ((l, t) # rest) =
     (case extract_section_number l of
        Inl e \<Rightarrow> Inl e
      | Inr n \<Rightarrow>
          (case filter_numbered nums rest of
             Inl e \<Rightarrow> Inl e
           | Inr out \<Rightarrow>
               Inr (if (case n of None \<Rightarrow> False | Some k \<Rightarrow> k \<in> nums) then (l, t) # out else out)))"

definition filter_sections ::
    "sect list \<Rightarrow> string \<Rightarrow> string \<Rightarrow> error + (string option \<times> sect list)" where
  "filter_sections sections range_str ext =
     (if ext \<in> {''.docx'', ''.odt'', ''.rtf''} then
        (case parse_numeric_range range_str of
           Inl e \<Rightarrow> Inl e
         | Inr line_range \<Rightarrow>
             (case filter_by_lines line_range sections [] of
                Inl e \<Rightarrow> Inl e
              | Inr filtered \<Rightarrow> Inr (None, filtered)))
      else if ext \<in> {''.xlsx'', ''.ods''} then
        (case parse_sheet_selector range_str of
           Inl e \<Rightarrow> Inl e
         | Inr sel \<Rightarrow>
             (case filter_sheets sel 1 sections [] of
                Inl e \<Rightarrow> Inl e
              | Inr filtered \<Rightarrow> Inr (None, filtered)))
      else
        (case parse_numeric_range range_str of
           Inl e \<Rightarrow> Inl e
         | Inr nums \<Rightarrow>
             (case filter_numbered nums sections of
                Inl e \<Rightarrow> Inl e
              | Inr filtered \<Rightarrow> Inr (None, filtered))))"

section \<open>Reading one document\<close>

definition SUPPORTED_EXTENSIONS :: "string set" where
  "SUPPORTED_EXTENSIONS =
     {''.pdf'', ''.docx'', ''.pptx'', ''.xlsx'', ''.odt'', ''.ods'', ''.odp'', ''.rtf'', ''.epub''}"

definition MAX_OUTPUT_CHARS :: nat where
  "MAX_OUTPUT_CHARS = 40000"

text \<open>\<open>s.lower()\<close>: the capital letters below 256 are A to Z and the Latin-1 capitals.\<close>

definition lower_char :: "char \<Rightarrow> char" where
  "lower_char c =
     (let n = (of_char c :: nat)
      in if (65 \<le> n \<and> n \<le> 90) \<or> (192 \<le> n \<and> n \<le> 222 \<and> n \<noteq> 215) then char_of (n + 32) else c)"

definition lower :: "string \<Rightarrow> string" where
  "lower s = map lower_char s"

text \<open>The rendering of one section, \<open>f"=== {label} ===\n{text}\n"\<close>.\<close>

definition render_section :: "sect \<Rightarrow> string" where
  "render_section sec =
     (case sec of (label, text) \<Rightarrow> ''=== '' @ label @ '' ==='' @ [CHR 0x0A] @ text @ [CHR 0x0A])"

text \<open>The list \<open>output\<close> joined by line feeds: the warning, if there is one, then the sections.\<close>

definition render_output :: "string option \<Rightarrow> sect list \<Rightarrow> string" where
  "render_output warning sections =
     join [CHR 0x0A]
       ((case warning of
           None \<Rightarrow> []
         | Some w \<Rightarrow> if w = [] then [] else [w @ [CHR 0x0A]])
        @ map render_section sections)"

definition truncation_notice :: string where
  "truncation_notice =
     [CHR 0x0A, CHR 0x0A] @ ''... output truncated at '' @ str_int (int MAX_OUTPUT_CHARS)
       @ '' chars. Use range to narrow results.''"

text \<open>The last three lines of \<open>docread\<close>.\<close>

definition cap_output :: "string \<Rightarrow> string" where
  "cap_output result =
     (if MAX_OUTPUT_CHARS < length result then take MAX_OUTPUT_CHARS result @ truncation_notice
      else result)"

text \<open>
  The statement \<open>if range: warning, sections = filter_sections(...)\<close>: no range, or the
  empty range, leaves the sections as they are, with no warning.
\<close>

definition apply_range ::
    "sect list \<Rightarrow> string option \<Rightarrow> string \<Rightarrow> error + (string option \<times> sect list)" where
  "apply_range sections range_arg ext =
     (case range_arg of
        None \<Rightarrow> Inr (None, sections)
      | Some r \<Rightarrow> if r = [] then Inr (None, sections) else filter_sections sections r ext)"

text \<open>
  \<open>docread\<close>. What the file system and the format decoder answer is an argument:
  \<open>is_a_file\<close> is \<open>path.is_file()\<close>, \<open>suffix\<close> is \<open>path.suffix\<close> and \<open>extraction\<close> is the outcome
  of \<open>extract_text(path)\<close>, the decoder's exception or the sections it returns.
\<close>

definition docread :: "bool \<Rightarrow> string \<Rightarrow> error + sect list \<Rightarrow> string option \<Rightarrow> error + string" where
  "docread is_a_file suffix extraction range_arg =
     (if \<not> is_a_file then Inl ValueError
      else if lower suffix \<notin> SUPPORTED_EXTENSIONS then Inl ValueError
      else
        (case extraction of
           Inl e \<Rightarrow> Inl e
         | Inr sections \<Rightarrow>
             (case apply_range sections range_arg (lower suffix) of
                Inl e \<Rightarrow> Inl e
              | Inr (warning, kept) \<Rightarrow>
                  if kept = [] then Inr ''No text content found.''
                  else Inr (cap_output (render_output warning kept)))))"

section \<open>Searching a directory\<close>

text \<open>
  One entry of \<open>sorted(root.rglob("*"))\<close>: the components of its path relative to the
  root, whether it is a regular file, and the outcome of \<open>extract_text\<close> on it (\<open>Inl\<close> the
  \<open>str\<close> of the exception raised).
\<close>

record entry =
  parts :: "string list"
  is_file :: bool
  extracted :: "string + sect list"

text \<open>\<open>Path.name\<close> and \<open>Path.suffix\<close>: the suffix starts at the last dot of the name, unless
  that dot is the first or the last character.\<close>

definition path_name :: "string list \<Rightarrow> string" where
  "path_name ps = (if ps = [] then [] else last ps)"

definition path_suffix :: "string list \<Rightarrow> string" where
  "path_suffix ps =
     (let name = path_name ps in
      if CHR ''.'' \<notin> set name then []
      else
        (let i = length name - 1 - length (takeWhile (\<lambda>c. c \<noteq> CHR ''.'') (rev name))
         in if 0 < i \<and> i + 1 < length name then drop i name else []))"

text \<open>\<open>str\<close> of a relative path.\<close>

definition path_str :: "string list \<Rightarrow> string" where
  "path_str ps = (if ps = [] then ''.'' else join ''/'' ps)"

definition hidden :: "string list \<Rightarrow> bool" where
  "hidden ps = list_ex (\<lambda>part. part \<noteq> [] \<and> hd part = CHR ''.'') ps"

definition allowed_exts :: "string list option \<Rightarrow> string set" where
  "allowed_exts file_types =
     (case file_types of
        None \<Rightarrow> SUPPORTED_EXTENSIONS
      | Some fts \<Rightarrow>
          if fts = [] then SUPPORTED_EXTENSIONS
          else (\<lambda>ext. if ext \<noteq> [] \<and> hd ext = CHR ''.'' then ext else CHR ''.'' # ext) ` set fts
                 \<inter> SUPPORTED_EXTENSIONS)"

text \<open>
  \<open>text.splitlines()\<close>: a line ends at LF, VT, FF, CR, CR LF, FS, GS, RS or NEL, and there is
  no empty line after the last line end.
\<close>

definition is_linebreak :: "char \<Rightarrow> bool" where
  "is_linebreak c \<longleftrightarrow> (of_char c :: nat) \<in> {10, 11, 12, 13, 28, 29, 30, 133}"

fun splitlines_from :: "string \<Rightarrow> string \<Rightarrow> string list" where
  "splitlines_from cur [] = (if cur = [] then [] else [cur])"
| "splitlines_from cur [c] = (if is_linebreak c then [cur] else [cur @ [c]])"
| "splitlines_from cur (c # d # cs) =
     (if c = CHR 0x0D \<and> d = CHR 0x0A then cur # splitlines_from [] cs
      else if is_linebreak c then cur # splitlines_from [] (d # cs)
      else splitlines_from (cur @ [c]) (d # cs))"

definition splitlines :: "string \<Rightarrow> string list" where
  "splitlines s = splitlines_from [] s"

text \<open>
  The state of the walk. \<open>results\<close> is the list the code appends to. \<open>calls\<close> is a ghost
  variable that the code does not have: it records, in order, every call of \<open>extract_text\<close>
  and of \<open>regex.search\<close>, so that what the walk processes can be stated.
\<close>

datatype call = ExtractText "string list" | RegexSearch "string list" string string

record walk_state =
  results :: "string list"
  calls :: "call list"

text \<open>The innermost loop, over the lines of one section; \<open>regex\<close> is \<open>regex.search\<close>.\<close>

fun scan_lines ::
    "(string \<Rightarrow> bool) \<Rightarrow> int \<Rightarrow> string list \<Rightarrow> string \<Rightarrow> string list \<Rightarrow> walk_state \<Rightarrow> walk_state" where
  "scan_lines regex max_results rel section_label [] st = st"
| "scan_lines regex max_results rel section_label (line # rest) st =
     (if max_results \<le> int (length (results st)) then st
      else
        (let searched = st\<lparr>calls := calls st @ [RegexSearch rel section_label line]\<rparr>
         in scan_lines regex max_results rel section_label rest
              (if regex line
               then searched\<lparr>results := results searched
                        @ [path_str rel @ '':'' @ section_label @ '':'' @ py_strip line]\<rparr>
               else searched)))"

text \<open>The loop over the sections of one file.\<close>

fun scan_sections ::
    "(string \<Rightarrow> bool) \<Rightarrow> int \<Rightarrow> string list \<Rightarrow> sect list \<Rightarrow> walk_state \<Rightarrow> walk_state" where
  "scan_sections regex max_results rel [] st = st"
| "scan_sections regex max_results rel ((section_label, text) # rest) st =
     (if max_results \<le> int (length (results st)) then st
      else scan_sections regex max_results rel rest
             (scan_lines regex max_results rel section_label (splitlines text) st))"

text \<open>The outer loop, over the sorted entries under the root.\<close>

fun walk ::
    "(string \<Rightarrow> bool) \<Rightarrow> string set \<Rightarrow> int \<Rightarrow> entry list \<Rightarrow> walk_state \<Rightarrow> walk_state" where
  "walk regex exts max_results [] st = st"
| "walk regex exts max_results (e # rest) st =
     (if max_results \<le> int (length (results st)) then st
      else if \<not> is_file e then walk regex exts max_results rest st
      else if lower (path_suffix (parts e)) \<notin> exts then walk regex exts max_results rest st
      else if hidden (parts e) then walk regex exts max_results rest st
      else
        (let tried = st\<lparr>calls := calls st @ [ExtractText (parts e)]\<rparr> in
         case extracted e of
           Inl msg \<Rightarrow>
             walk regex exts max_results rest
               (tried\<lparr>results := results tried @ [path_str (parts e) @ '':error:'' @ msg]\<rparr>)
         | Inr sections \<Rightarrow>
             walk regex exts max_results rest
               (scan_sections regex max_results (parts e) sections tried)))"

text \<open>
  \<open>docgrep\<close>. \<open>is_dir\<close> is \<open>root.is_dir()\<close>; \<open>compiled\<close> is the outcome of \<open>re.compile\<close> on the
  pattern and the flags, \<open>None\<close> when it raises \<open>re.error\<close>, else the \<open>search\<close> of the regex.
  \<open>docgrep_walk\<close> is the loop from the empty list of results.
\<close>

definition docgrep_walk ::
    "(string \<Rightarrow> bool) \<Rightarrow> string list option \<Rightarrow> int \<Rightarrow> entry list \<Rightarrow> walk_state" where
  "docgrep_walk regex file_types max_results entries =
     walk regex (allowed_exts file_types) max_results entries \<lparr>results = [], calls = []\<rparr>"

definition docgrep ::
    "bool \<Rightarrow> (string \<Rightarrow> bool) option \<Rightarrow> string list option \<Rightarrow> int \<Rightarrow> entry list \<Rightarrow> error + string" where
  "docgrep is_dir compiled file_types max_results entries =
     (if \<not> is_dir then Inl ValueError
      else
        (case compiled of
           None \<Rightarrow> Inl ValueError
         | Some regex \<Rightarrow>
             (let found = results (docgrep_walk regex file_types max_results entries)
              in if found = [] then Inr ''No matches found.'' else Inr (join [CHR 0x0A] found))))"

text \<open>The path a recorded call is about.\<close>

fun call_path :: "call \<Rightarrow> string list" where
  "call_path (ExtractText rel) = rel"
| "call_path (RegexSearch rel section_label line) = rel"

text \<open>
  An entry that passes the three \<open>continue\<close> tests of the outer loop: a regular file with an
  allowed extension and no path component that starts with a dot.
\<close>

definition eligible :: "string set \<Rightarrow> entry \<Rightarrow> bool" where
  "eligible exts e \<longleftrightarrow>
     is_file e \<and> lower (path_suffix (parts e)) \<in> exts \<and> \<not> hidden (parts e)"

text \<open>
  What the lines of a section, the sections of a file and an entry would add to \<open>results\<close>
  if there were no cap, and \<open>capped m rs new\<close>, the list \<open>rs\<close> after appending the elements
  of \<open>new\<close> one by one for as long as fewer than \<open>m\<close> are held; used to describe the
  capped loops.
\<close>

definition capped :: "int \<Rightarrow> 'a list \<Rightarrow> 'a list \<Rightarrow> 'a list" where
  "capped m rs new = (if m \<le> int (length rs) then rs else take (nat m) (rs @ new))"

definition line_results :: "(string \<Rightarrow> bool) \<Rightarrow> string list \<Rightarrow> string \<Rightarrow> string list \<Rightarrow> string list" where
  "line_results regex rel section_label ls =
     map (\<lambda>line. path_str rel @ '':'' @ section_label @ '':'' @ py_strip line) (filter regex ls)"

definition section_results :: "(string \<Rightarrow> bool) \<Rightarrow> string list \<Rightarrow> sect list \<Rightarrow> string list" where
  "section_results regex rel sections =
     concat (map (\<lambda>(section_label, text). line_results regex rel section_label (splitlines text))
               sections)"

definition entry_results :: "(string \<Rightarrow> bool) \<Rightarrow> string set \<Rightarrow> entry \<Rightarrow> string list" where
  "entry_results regex exts e =
     (if \<not> eligible exts e then []
      else
        (case extracted e of
           Inl msg \<Rightarrow> [path_str (parts e) @ '':error:'' @ msg]
         | Inr sections \<Rightarrow> section_results regex (parts e) sections))"

section \<open>Properties of range parsing\<close>

lemma parse_parts_eq:
  "parse_parts ps nums =
     (if \<forall>p\<in>set ps. range_part p \<noteq> None
      then Inr (nums \<union> \<Union>{S. \<exists>p\<in>set ps. range_part p = Some S})
      else Inl ValueError)"
proof (induction ps arbitrary: nums)
  case Nil
  show ?case by simp
next
  case (Cons p ps)
  show ?case
  proof (cases "range_part p")
    case None
    then show ?thesis by simp
  next
    case (Some new)
    have "\<Union>{S. \<exists>q\<in>set (p # ps). range_part q = Some S}
            = new \<union> \<Union>{S. \<exists>q\<in>set ps. range_part q = Some S}"
      using Some by auto
    then show ?thesis
      using Some Cons.IH [of "nums \<union> new"] by (simp add: Un_assoc)
  qed
qed

lemma range_part_finite: "range_part p = Some S \<Longrightarrow> finite S"
  by (auto simp: range_part_def Let_def split: if_splits option.splits prod.splits)

lemma parse_parts_finite:
  "parse_parts ps nums = Inr R \<Longrightarrow> finite nums \<Longrightarrow> finite R"
  by (induction ps arbitrary: nums) (auto split: option.splits dest: range_part_finite)

lemma parse_numeric_range_finite: "parse_numeric_range s = Inr R \<Longrightarrow> finite R"
  unfolding parse_numeric_range_def by (erule parse_parts_finite) simp

text \<open>
  Claim C9. The set \<open>parse_numeric_range\<close> returns is the union of what the comma-separated
  parts contribute, so it does not depend on their order: two texts whose parts are the
  same up to order parse alike (both to the same set, or both raise \<open>ValueError\<close>). In
  particular \<open>"3-5,8"\<close> and \<open>"8,3-5"\<close> both give \<open>{3, 4, 5, 8}\<close>.
\<close>

theorem parse_numeric_range_union_any_order:
  "(parse_numeric_range s = Inr R \<longrightarrow>
      R = \<Union>{S. \<exists>p\<in>set (split_on CHR '','' s). range_part p = Some S})
   \<and> (mset (split_on CHR '','' s') = mset (split_on CHR '','' s) \<longrightarrow>
        parse_numeric_range s' = parse_numeric_range s)
   \<and> parse_numeric_range ''3-5,8'' = Inr {3, 4, 5, 8}
   \<and> parse_numeric_range ''8,3-5'' = Inr {3, 4, 5, 8}"
proof (intro conjI impI)
  assume "parse_numeric_range s = Inr R"
  then show "R = \<Union>{S. \<exists>p\<in>set (split_on CHR '','' s). range_part p = Some S}"
    unfolding parse_numeric_range_def parse_parts_eq by (simp split: if_splits)
next
  assume "mset (split_on CHR '','' s') = mset (split_on CHR '','' s)"
  then have "set (split_on CHR '','' s') = set (split_on CHR '','' s)"
    by (rule mset_eq_setD)
  then show "parse_numeric_range s' = parse_numeric_range s"
    unfolding parse_numeric_range_def parse_parts_eq by simp
next
  show "parse_numeric_range ''3-5,8'' = Inr {3, 4, 5, 8}" by code_simp
next
  show "parse_numeric_range ''8,3-5'' = Inr {3, 4, 5, 8}" by code_simp
qed

theorem parse_numeric_range_union_any_order_witness:
  "parse_numeric_range ''3-5,8'' = Inr {3, 4, 5, 8}
   \<and> mset (split_on CHR '','' ''8,3-5'') = mset (split_on CHR '','' ''3-5,8'')
   \<and> {3, 4, 5, 8} = \<Union>{S. \<exists>p\<in>set (split_on CHR '','' ''3-5,8''). range_part p = Some S}
   \<and> parse_numeric_range ''8,3-5'' = parse_numeric_range ''3-5,8''"
proof -
  have a: "parse_numeric_range ''3-5,8'' = Inr {3, 4, 5, 8}" by code_simp
  have b: "mset (split_on CHR '','' ''8,3-5'') = mset (split_on CHR '','' ''3-5,8'')"
    by (simp add: add.commute)
  show ?thesis
    using parse_numeric_range_union_any_order [of "''3-5,8''" "{3, 4, 5, 8}" "''8,3-5''"] a b
    by blast
qed

lemma rstrip_Cons:
  "rev (dropWhile P (rev m @ [c])) =
     (if P c \<and> rev (dropWhile P (rev m)) = [] then [] else c # rev (dropWhile P (rev m)))"
  by (auto simp: dropWhile_append)

lemma lstrip_rstrip_commute:
  "dropWhile P (rev (dropWhile P (rev s))) = rev (dropWhile P (rev (dropWhile P s)))"
proof (induction s)
  case Nil
  show ?case by simp
next
  case (Cons c m)
  show ?case
  proof (cases "P c")
    case True
    then show ?thesis using Cons.IH
      by (auto simp: rstrip_Cons dest: set_dropWhileD)
  next
    case False
    then show ?thesis by (simp add: rstrip_Cons)
  qed
qed

lemma strip_by_lstrip: "strip_by P (dropWhile P s) = strip_by P s"
  by (simp add: strip_by_def dropWhile_idem)

lemma strip_by_rstrip: "strip_by P (rev (dropWhile P (rev s))) = strip_by P s"
  by (simp add: strip_by_def lstrip_rstrip_commute dropWhile_idem)

lemma strip_by_middle:
  assumes "\<exists>x\<in>set st. \<not> P x" "\<exists>y\<in>set en. \<not> P y"
  shows "strip_by P (st @ m @ en) = dropWhile P st @ m @ rev (dropWhile P (rev en))"
proof -
  obtain x where x: "x \<in> set st" "\<not> P x" using assms(1) by blast
  obtain y where y: "y \<in> set (rev en)" "\<not> P y" using assms(2) by auto
  have "dropWhile P (st @ m @ en) = dropWhile P st @ m @ en"
    using x by (rule dropWhile_append1)
  moreover have "dropWhile P (rev en @ rev m @ rev (dropWhile P st))
                   = dropWhile P (rev en) @ rev m @ rev (dropWhile P st)"
    using y by (rule dropWhile_append1)
  ultimately show ?thesis by (simp add: strip_by_def)
qed

lemma is_int_space_is_space: "is_int_space c \<Longrightarrow> is_space c"
  by (auto simp: is_int_space_def is_space_def)

lemma hd_rstrip:
  "rev (dropWhile P (rev x)) \<noteq> [] \<Longrightarrow> hd (rev (dropWhile P (rev x))) = hd x"
  by (cases x) (auto simp: rstrip_Cons split: if_splits)

lemma dropWhile_wider:
  assumes "\<And>c. P c \<Longrightarrow> Q c"
  shows "dropWhile P s \<noteq> [] \<Longrightarrow> \<not> Q (hd (dropWhile P s)) \<Longrightarrow> dropWhile Q s = dropWhile P s"
  by (induction s) (auto dest: assms)

lemma strip_by_rev: "strip_by P (rev s) = rev (strip_by P s)"
  by (simp add: strip_by_def lstrip_rstrip_commute)

lemma strip_by_wider_lstrip:
  assumes "\<And>c. P c \<Longrightarrow> Q c" "strip_by P s \<noteq> []" "\<not> Q (hd (strip_by P s))"
  shows "strip_by P (dropWhile Q s) = strip_by P s"
proof -
  have n: "dropWhile P s \<noteq> []"
  proof
    assume d: "dropWhile P s = []"
    have "strip_by P s = []" unfolding strip_by_def d by simp
    with assms(2) show False by simp
  qed
  have "hd (strip_by P s) = hd (dropWhile P s)"
    using assms(2) unfolding strip_by_def by (rule hd_rstrip)
  then have "dropWhile Q s = dropWhile P s"
    using assms(1,3) n by (intro dropWhile_wider) auto
  then show ?thesis by (simp add: strip_by_lstrip)
qed

lemma strip_by_wider_rstrip:
  assumes "\<And>c. P c \<Longrightarrow> Q c" "strip_by P s \<noteq> []" "\<not> Q (last (strip_by P s))"
  shows "strip_by P (rev (dropWhile Q (rev s))) = strip_by P s"
proof -
  have "strip_by P (dropWhile Q (rev s)) = strip_by P (rev s)"
    using assms by (intro strip_by_wider_lstrip) (auto simp: strip_by_rev hd_rev)
  then have "rev (strip_by P (dropWhile Q (rev s))) = strip_by P s"
    by (simp add: strip_by_rev)
  then show ?thesis by (simp add: strip_by_rev [symmetric])
qed

lemma py_int_digits_ends:
  assumes "py_int_digits b = Some n"
  shows "b \<noteq> [] \<and> is_digit (hd b) \<and> is_digit (last b)"
proof -
  from assms have b: "b \<noteq> []" and all: "list_all (\<lambda>c. is_digit c \<or> c = CHR ''_'') b"
    and h: "hd b \<noteq> CHR ''_''" and l: "last b \<noteq> CHR ''_''"
    by (auto simp: py_int_digits_def split: if_splits)
  from b all have "is_digit (hd b) \<or> hd b = CHR ''_''" "is_digit (last b) \<or> last b = CHR ''_''"
    by (auto simp: list_all_iff)
  with b h l show ?thesis by auto
qed

lemma is_digit_not_space: "is_digit c \<Longrightarrow> \<not> is_space c"
  by (auto simp: is_digit_def is_space_def)

lemma py_int_ends:
  assumes "py_int s = Some a"
  shows "strip_by is_int_space s \<noteq> [] \<and> \<not> is_space (hd (strip_by is_int_space s))
         \<and> \<not> is_space (last (strip_by is_int_space s))"
proof (cases "strip_by is_int_space s")
  case Nil
  with assms show ?thesis by (simp add: py_int_def)
next
  case (Cons c r)
  have sign: "\<not> is_space CHR ''-''" "\<not> is_space CHR ''+''" by (simp_all add: is_space_def)
  show ?thesis
  proof (cases "c = CHR ''-'' \<or> c = CHR ''+''")
    case True
    with assms Cons obtain n where "py_int_digits r = Some n"
      by (auto simp: py_int_def split: if_splits)
    from py_int_digits_ends [OF this] True sign show ?thesis
      unfolding Cons by (auto dest: is_digit_not_space)
  next
    case False
    with assms Cons obtain n where "py_int_digits (c # r) = Some n"
      by (auto simp: py_int_def split: if_splits)
    from py_int_digits_ends [OF this] show ?thesis
      unfolding Cons by (auto dest: is_digit_not_space)
  qed
qed

lemma strip_by_subset: "set (strip_by P s) \<subseteq> set s"
  unfolding strip_by_def by (auto dest!: set_dropWhileD)

lemma py_int_nonspace: "py_int s = Some a \<Longrightarrow> \<exists>x\<in>set s. \<not> is_space x"
proof -
  assume "py_int s = Some a"
  from py_int_ends [OF this]
  have "hd (strip_by is_int_space s) \<in> set (strip_by is_int_space s)"
    and "\<not> is_space (hd (strip_by is_int_space s))" by auto
  then show ?thesis using strip_by_subset by blast
qed

lemma py_int_lstrip: "py_int s = Some a \<Longrightarrow> py_int (dropWhile is_space s) = Some a"
proof -
  assume a: "py_int s = Some a"
  from py_int_ends [OF a]
  have "strip_by is_int_space (dropWhile is_space s) = strip_by is_int_space s"
    by (intro strip_by_wider_lstrip) (auto dest: is_int_space_is_space)
  with a show ?thesis by (simp add: py_int_def)
qed

lemma py_int_rstrip: "py_int s = Some a \<Longrightarrow> py_int (rev (dropWhile is_space (rev s))) = Some a"
proof -
  assume a: "py_int s = Some a"
  from py_int_ends [OF a]
  have "strip_by is_int_space (rev (dropWhile is_space (rev s))) = strip_by is_int_space s"
    by (intro strip_by_wider_rstrip) (auto dest: is_int_space_is_space)
  with a show ?thesis by (simp add: py_int_def)
qed

lemma split_on_no_sep: "sep \<notin> set s \<Longrightarrow> split_on sep s = [s]"
  by (induction s) auto

lemma split_first_middle:
  "sep \<notin> set u \<Longrightarrow> split_first sep (u @ sep # v) = (u, v)"
  by (induction u) (auto simp: split_first_def)

lemma range_part_token:
  assumes "CHR ''-'' \<notin> set st" "py_int st = Some a" "py_int en = Some b"
  shows "range_part (st @ CHR ''-'' # en) = Some {a..b}"
proof -
  let ?u = "dropWhile is_space st" and ?v = "rev (dropWhile is_space (rev en))"
  have s: "py_strip (st @ CHR ''-'' # en) = ?u @ CHR ''-'' # ?v"
    unfolding py_strip_def
    using strip_by_middle [OF py_int_nonspace [OF assms(2)] py_int_nonspace [OF assms(3)], of "''-''"]
    by simp
  have "CHR ''-'' \<notin> set ?u" using assms(1) set_dropWhileD by fastforce
  then have f: "split_first CHR ''-'' (?u @ CHR ''-'' # ?v) = (?u, ?v)"
    by (rule split_first_middle)
  show ?thesis
    unfolding range_part_def s Let_def f
    by (simp add: py_int_lstrip [OF assms(2)] py_int_rstrip [OF assms(3)])
qed

text \<open>
  Claim C6, as the code has it. A part \<open>a-b\<close> contributes \<open>range(a, b + 1)\<close>, the integers
  from \<open>a\<close> up to \<open>b\<close>: reversed bounds raise nothing, but they are not put in order
  either, so the part \<open>a-b\<close> with \<open>a > b\<close> contributes no number at all. Here \<open>st\<close> and
  \<open>en\<close> are the texts of the two bounds, in any spelling \<open>int\<close> accepts; the part is split
  at its first minus sign, so the first bound is one written without a minus sign.
\<close>

theorem range_token_runs_upward_only:
  assumes "CHR '','' \<notin> set st" "CHR '','' \<notin> set en" "CHR ''-'' \<notin> set st"
      and "py_int st = Some a" "py_int en = Some b"
  shows "parse_numeric_range (st @ ''-'' @ en) = Inr {a..b}
         \<and> (b < a \<longrightarrow> parse_numeric_range (st @ ''-'' @ en) = Inr {})"
proof -
  have "split_on CHR '','' (st @ ''-'' @ en) = [st @ ''-'' @ en]"
    using assms(1,2) by (intro split_on_no_sep) simp
  then have "parse_numeric_range (st @ ''-'' @ en) = Inr {a..b}"
    by (simp add: parse_numeric_range_def range_part_token [OF assms(3-5)])
  then show ?thesis by simp
qed

theorem range_token_runs_upward_only_witness:
  "CHR '','' \<notin> set ''5'' \<and> CHR '','' \<notin> set ''3'' \<and> CHR ''-'' \<notin> set ''5''
   \<and> py_int ''5'' = Some 5 \<and> py_int ''3'' = Some 3 \<and> (3::int) < 5
   \<and> parse_numeric_range ''5-3'' = Inr {}"
proof -
  have a: "py_int ''5'' = Some 5" by code_simp
  have b: "py_int ''3'' = Some 3" by code_simp
  have "parse_numeric_range (''5'' @ ''-'' @ ''3'') = Inr {}"
    using range_token_runs_upward_only [of "''5''" "''3''" 5 3] a b by simp
  then show ?thesis using a b by simp
qed

text \<open>
  The claim as stated fails: \<open>"5-3"\<close> parses to the empty set, \<open>"3-5"\<close> to \<open>{3, 4, 5}\<close>.
\<close>

theorem reversed_range_counterexample:
  "parse_numeric_range ''5-3'' = Inr {} \<and> parse_numeric_range ''3-5'' = Inr {3, 4, 5}
   \<and> parse_numeric_range ''5-3'' \<noteq> parse_numeric_range ''3-5''"
  by code_simp

section \<open>Properties of section filtering\<close>

lemma nths_eq_map_nth:
  "nths xs A = map (nth xs) (filter (\<lambda>i. i \<in> A) [0..<length xs])"
proof (induction xs rule: rev_induct)
  case Nil
  show ?case by simp
next
  case (snoc x xs)
  have "map ((!) (xs @ [x])) (filter (\<lambda>i. i \<in> A) [0..<length xs])
          = map ((!) xs) (filter (\<lambda>i. i \<in> A) [0..<length xs])"
    by (rule map_cong) (auto simp: nth_append)
  then show ?case using snoc.IH by (simp add: nths_append)
qed

lemma filter_sorted_list_of_set_window:
  assumes "finite R"
  shows "filter (\<lambda>j. 1 \<le> j \<and> j \<le> int n) (sorted_list_of_set R)
           = map (\<lambda>i. int i + 1) (filter (\<lambda>i. int i + 1 \<in> R) [0..<n])"
proof (rule sorted_distinct_set_unique)
  show "sorted (filter (\<lambda>j. 1 \<le> j \<and> j \<le> int n) (sorted_list_of_set R))"
    by (simp add: sorted_filter [where f = id, simplified])
  show "distinct (filter (\<lambda>j. 1 \<le> j \<and> j \<le> int n) (sorted_list_of_set R))"
    by simp
  show "sorted (map (\<lambda>i. int i + 1) (filter (\<lambda>i. int i + 1 \<in> R) [0..<n]))"
    by (rule sorted_wrt_map_mono [where f = "\<lambda>i. int i + 1" and R = "(\<le>)"]) 
       (auto intro: sorted_filter [where f = id, simplified])
  show "distinct (map (\<lambda>i. int i + 1) (filter (\<lambda>i. int i + 1 \<in> R) [0..<n]))"
    by (simp add: distinct_map inj_on_def)
  show "set (filter (\<lambda>j. 1 \<le> j \<and> j \<le> int n) (sorted_list_of_set R))
          = set (map (\<lambda>i. int i + 1) (filter (\<lambda>i. int i + 1 \<in> R) [0..<n]))"
  proof -
    have "\<And>j. j \<in> R \<Longrightarrow> 1 \<le> j \<Longrightarrow> j \<le> int n \<Longrightarrow>
             j \<in> (\<lambda>i. int i + 1) ` {i. i < n \<and> int i + 1 \<in> R}"
    proof -
      fix j assume "j \<in> R" "1 \<le> j" "j \<le> int n"
      then have "nat (j - 1) < n \<and> int (nat (j - 1)) + 1 \<in> R \<and> j = int (nat (j - 1)) + 1"
        by auto
      then show "j \<in> (\<lambda>i. int i + 1) ` {i. i < n \<and> int i + 1 \<in> R}" by blast
    qed
    then show ?thesis using assms by auto
  qed
qed

lemma select_lines_nths:
  assumes "finite R"
  shows "select_lines R lines = nths lines {i. int i + 1 \<in> R}"
  unfolding select_lines_def filter_sorted_list_of_set_window [OF assms] nths_eq_map_nth
  by (simp add: comp_def)

lemma nths_empty_iff: "nths xs A = [] \<longleftrightarrow> \<not> (\<exists>i<length xs. i \<in> A)"
proof -
  have "nths xs A = [] \<longleftrightarrow> set (nths xs A) = {}" by simp
  also have "\<dots> \<longleftrightarrow> \<not> (\<exists>i<length xs. i \<in> A)" unfolding set_nths by blast
  finally show ?thesis .
qed


lemma filter_by_lines_eq:
  assumes "finite R"
  shows "filter_by_lines R secs acc =
           Inr (acc @ map (\<lambda>(label, text).
                            (label @ '' lines '' @ str_int (Min R) @ ''-'' @ str_int (Max R),
                             join [CHR 0x0A] (nths (split_on (CHR 0x0A) text) {i. int i + 1 \<in> R})))
                       (filter (\<lambda>(label, text). \<exists>i<length (split_on (CHR 0x0A) text). int i + 1 \<in> R)
                          secs))"
proof (induction secs arbitrary: acc)
  case Nil
  show ?case by simp
next
  case (Cons sec secs)
  obtain label body where sec: "sec = (label, body)" by (cases sec)
  show ?case
  proof (cases "\<exists>i<length (split_on (CHR 0x0A) body). int i + 1 \<in> R")
    case True
    then have "R \<noteq> {}" by blast
    with True show ?thesis
      unfolding sec
      by (simp add: Let_def select_lines_nths [OF assms] nths_empty_iff Cons.IH)
  next
    case False
    then show ?thesis
      unfolding sec
      by (simp add: Let_def select_lines_nths [OF assms] nths_empty_iff Cons.IH)
  qed
qed

lemma split_on_Cons_sep:
  "sep \<notin> set l \<Longrightarrow> split_on sep (l @ sep # rest) = l # split_on sep rest"
  by (induction l) (auto split: list.splits)

lemma split_on_join:
  "ls \<noteq> [] \<Longrightarrow> \<forall>l\<in>set ls. sep \<notin> set l \<Longrightarrow> split_on sep (join [sep] ls) = ls"
proof (induction ls)
  case Nil
  then show ?case by simp
next
  case (Cons x xs)
  show ?case
  proof (cases xs)
    case Nil
    then show ?thesis using Cons.prems by (simp add: split_on_no_sep)
  next
    case (Cons y ys)
    then show ?thesis using Cons.IH Cons.prems by (simp add: split_on_Cons_sep)
  qed
qed

lemma nths_2_to_4: "nths [l1, l2, l3, l4, l5] {i. int i + 1 \<in> {2, 3, 4}} = [l2, l3, l4]"
proof -
  have "{i. int i + 1 \<in> {2, 3, 4}} = {1, 2, 3::nat}" by auto
  then show ?thesis by (simp add: nths_Cons)
qed

text \<open>
  Claim C4. For \<open>.docx\<close>, \<open>.odt\<close> and \<open>.rtf\<close>, with \<open>R\<close> the parsed line range:
  each section keeps exactly its lines whose 1-based index is in \<open>R\<close>, in the order of
  the lines (\<open>nths\<close> takes the elements at the given positions, in list order); a section
  with no such line is dropped; a kept section is relabelled with the least and the
  greatest number of \<open>R\<close> itself, whether or not those lines exist. In particular the
  range \<open>"2-4"\<close> on one section \<open>document\<close> of five lines gives the lines 2 to 4 under the
  label \<open>document lines 2-4\<close>.
\<close>

theorem line_range_filter:
  assumes "ext \<in> {''.docx'', ''.odt'', ''.rtf''}"
  shows "(parse_numeric_range range_str = Inr R \<longrightarrow>
            filter_sections sections range_str ext =
              Inr (None,
                   map (\<lambda>(label, text).
                          (label @ '' lines '' @ str_int (Min R) @ ''-'' @ str_int (Max R),
                           join [CHR 0x0A] (nths (split_on (CHR 0x0A) text) {i. int i + 1 \<in> R})))
                     (filter (\<lambda>(label, text). \<exists>i<length (split_on (CHR 0x0A) text). int i + 1 \<in> R)
                        sections)))
         \<and> ((\<forall>l\<in>set [l1, l2, l3, l4, l5]. CHR 0x0A \<notin> set l) \<longrightarrow>
              filter_sections [(''document'', join [CHR 0x0A] [l1, l2, l3, l4, l5])] ''2-4'' ext =
                Inr (None, [(''document lines 2-4'', join [CHR 0x0A] [l2, l3, l4])]))"
proof -
  have general: "filter_sections secs rs ext =
          Inr (None,
               map (\<lambda>(label, text).
                      (label @ '' lines '' @ str_int (Min Q) @ ''-'' @ str_int (Max Q),
                       join [CHR 0x0A] (nths (split_on (CHR 0x0A) text) {i. int i + 1 \<in> Q})))
                 (filter (\<lambda>(label, text). \<exists>i<length (split_on (CHR 0x0A) text). int i + 1 \<in> Q)
                    secs))"
    if "parse_numeric_range rs = Inr Q" for secs rs Q
    using assms that filter_by_lines_eq [OF parse_numeric_range_finite [OF that], of secs "[]"]
    by (simp add: filter_sections_def)
  have p: "parse_numeric_range ''2-4'' = Inr {2, 3, 4}" by code_simp
  have lo: "str_int (Min {2, 3, 4}) = ''2''" by (simp add: str_int_def str_nat.simps digit_char_def)
  have hi: "str_int (Max {2, 3, 4}) = ''4''" by (simp add: str_int_def str_nat.simps digit_char_def)
  have particular: "filter_sections [(''document'', join [CHR 0x0A] [l1, l2, l3, l4, l5])] ''2-4'' ext =
                Inr (None, [(''document lines 2-4'', join [CHR 0x0A] [l2, l3, l4])])"
    if "\<forall>l\<in>set [l1, l2, l3, l4, l5]. CHR 0x0A \<notin> set l"
  proof -
    define doc where "doc = join [CHR 0x0A] [l1, l2, l3, l4, l5]"
    have sp: "split_on (CHR 0x0A) doc = [l1, l2, l3, l4, l5]"
      unfolding doc_def using that by (intro split_on_join) simp_all
    have "\<exists>i<length [l1, l2, l3, l4, l5]. int i + 1 \<in> {2, 3, 4::int}"
      by (rule exI [of _ 1]) simp
    then have keep: "filter (\<lambda>(label, text). \<exists>i<length (split_on (CHR 0x0A) text). int i + 1 \<in> {2, 3, 4})
                 [(''document'', doc)] = [(''document'', doc)]"
      by (simp only: filter.simps prod.case sp if_True)
    have "filter_sections [(''document'', doc)] ''2-4'' ext =
            Inr (None, [(''document lines 2-4'', join [CHR 0x0A] [l2, l3, l4])])"
      unfolding general [OF p] keep
      by (simp only: list.map prod.case sp nths_2_to_4 lo hi) simp
    then show ?thesis unfolding doc_def .
  qed
  show ?thesis using general particular by blast
qed

theorem line_range_filter_witness:
  "''.docx'' \<in> {''.docx'', ''.odt'', ''.rtf''}
   \<and> CHR 0x0A \<notin> set ''a'' \<union> set ''b'' \<union> set ''c'' \<union> set ''d'' \<union> set ''e''
   \<and> parse_numeric_range ''2-4'' = Inr {2, 3, 4}
   \<and> filter_sections [(''document'', join [CHR 0x0A] [''a'', ''b'', ''c'', ''d'', ''e''])] ''2-4'' ''.docx'' =
       Inr (None, [(''document lines 2-4'', join [CHR 0x0A] [''b'', ''c'', ''d''])])"
proof -
  have e: "''.docx'' \<in> {''.docx'', ''.odt'', ''.rtf''}" by simp
  have n: "\<forall>l\<in>set [''a'', ''b'', ''c'', ''d'', ''e'']. CHR 0x0A \<notin> set l" by simp
  have p: "parse_numeric_range ''2-4'' = Inr {2, 3, 4}" by code_simp
  have n': "CHR 0x0A \<notin> set ''a'' \<union> set ''b'' \<union> set ''c'' \<union> set ''d'' \<union> set ''e''" by simp
  show ?thesis
    using line_range_filter [OF e, of "''2-4''" "{2, 3, 4}" "[]" "''a''" "''b''" "''c''" "''d''" "''e''"] e n n' p
    by blast
qed

lemma add_sheet_part_row_range [simp]: "row_range (add_sheet_part part sel) = row_range sel"
  by (simp add: add_sheet_part_def split: option.splits sum.splits)

lemma parse_sheet_parts_rows_finite:
  "parse_sheet_parts ps sel = Inr sel' \<Longrightarrow> \<forall>R. row_range sel = Some R \<longrightarrow> finite R \<Longrightarrow>
     row_range sel' = Some R' \<Longrightarrow> finite R'"
proof (induction ps arbitrary: sel)
  case Nil
  then show ?case by simp
next
  case (Cons p ps)
  show ?case
  proof (cases "CHR '':'' \<in> set (strip_chars [CHR 0x27, CHR 0x22] (py_strip p))")
    case True
    obtain sheet_part row_part
      where sf: "split_first CHR '':'' (strip_chars [CHR 0x27, CHR 0x22] (py_strip p)) = (sheet_part, row_part)"
      by (cases "split_first CHR '':'' (strip_chars [CHR 0x27, CHR 0x22] (py_strip p))")
    from Cons.prems(1) True sf obtain rows
      where r: "parse_numeric_range row_part = Inr rows"
        and rest: "parse_sheet_parts ps (add_sheet_part sheet_part (sel\<lparr>row_range := Some rows\<rparr>)) = Inr sel'"
      by (auto simp: Let_def split: sum.splits)
    show ?thesis
      using Cons.IH [OF rest _ Cons.prems(3)] parse_numeric_range_finite [OF r] by simp
  next
    case False
    with Cons.prems(1)
    have rest: "parse_sheet_parts ps (add_sheet_part (strip_chars [CHR 0x27, CHR 0x22] (py_strip p)) sel) = Inr sel'"
      by (simp add: Let_def)
    show ?thesis using Cons.IH [OF rest _ Cons.prems(3)] Cons.prems(2) by simp
  qed
qed

lemma parse_sheet_selector_rows_finite:
  "parse_sheet_selector s = Inr sel \<Longrightarrow> row_range sel = Some R \<Longrightarrow> finite R"
  unfolding parse_sheet_selector_def by (erule parse_sheet_parts_rows_finite) simp_all

lemma filter_sheets_eq:
  assumes "\<forall>R. row_range sel = Some R \<longrightarrow> finite R \<and> R \<noteq> {}"
  shows "filter_sheets sel (int k) secs acc =
           Inr (acc @ map (\<lambda>(label, text).
                            case row_range sel of
                              None \<Rightarrow> (label, text)
                            | Some rows \<Rightarrow>
                                (label @ '' rows '' @ str_int (Min rows) @ ''-'' @ str_int (Max rows),
                                 join [CHR 0x0A] (nths (split_on (CHR 0x0A) text) {i. int i + 1 \<in> rows})))
                       (map snd (filter (\<lambda>(i, label, text). int i \<in> indices sel \<or> sheet_name label \<in> names sel)
                                   (enumerate k secs))))"
proof (induction secs arbitrary: k acc)
  case Nil
  show ?case by simp
next
  case (Cons sec secs)
  obtain label body where sec: "sec = (label, body)" by (cases sec)
  have step: "int k + 1 = int (Suc k)" by simp
  show ?case
  proof (cases "row_range sel")
    case None
    then show ?thesis
      unfolding sec by (simp only: filter_sheets.simps step Cons.IH) simp
  next
    case (Some rows)
    with assms have "finite rows" "rows \<noteq> {}" by auto
    with Some show ?thesis
      unfolding sec
      by (simp only: filter_sheets.simps step Cons.IH) (simp add: Let_def select_lines_nths)
  qed
qed


lemma first_two_rows: "{i::nat. i = 0 \<or> i = Suc 0} = {..<2}"
  by auto

text \<open>
  Claim C5, as the code has it. For \<open>.xlsx\<close> and \<open>.ods\<close>, with \<open>sel\<close> the parsed selector
  and a row range that is absent or not empty: the sections kept are, in order, those
  whose 1-based position is in \<open>indices sel\<close> or whose sheet name (the label without the
  prefix \<open>sheet '\<close> and the suffix \<open>'\<close>) is in \<open>names sel\<close>; without a row range they are
  passed through, with one they are cut to the requested rows. On the sheets \<open>A\<close> and
  \<open>B\<close>, the range \<open>"B"\<close> keeps only \<open>B\<close>, \<open>"1"\<close> keeps only \<open>A\<close>, and \<open>"B:1-2"\<close> keeps \<open>B\<close> cut
  to its first two rows.
\<close>

theorem sheet_selection:
  assumes "ext \<in> {''.xlsx'', ''.ods''}"
  shows "(parse_sheet_selector range_str = Inr sel \<and> row_range sel \<noteq> Some {} \<longrightarrow>
            filter_sections sections range_str ext =
              Inr (None,
                   map (\<lambda>(label, text).
                          case row_range sel of
                            None \<Rightarrow> (label, text)
                          | Some rows \<Rightarrow>
                              (label @ '' rows '' @ str_int (Min rows) @ ''-'' @ str_int (Max rows),
                               join [CHR 0x0A] (nths (split_on (CHR 0x0A) text) {i. int i + 1 \<in> rows})))
                     (map snd (filter (\<lambda>(i, label, text). int i \<in> indices sel \<or> sheet_name label \<in> names sel)
                                 (enumerate 1 sections)))))
         \<and> filter_sections [(''sheet '' @ [CHR 0x27] @ ''A'' @ [CHR 0x27], ta),
                              (''sheet '' @ [CHR 0x27] @ ''B'' @ [CHR 0x27], tb)] ''B'' ext
             = Inr (None, [(''sheet '' @ [CHR 0x27] @ ''B'' @ [CHR 0x27], tb)])
         \<and> filter_sections [(''sheet '' @ [CHR 0x27] @ ''A'' @ [CHR 0x27], ta),
                              (''sheet '' @ [CHR 0x27] @ ''B'' @ [CHR 0x27], tb)] ''1'' ext
             = Inr (None, [(''sheet '' @ [CHR 0x27] @ ''A'' @ [CHR 0x27], ta)])
         \<and> filter_sections [(''sheet '' @ [CHR 0x27] @ ''A'' @ [CHR 0x27], ta),
                              (''sheet '' @ [CHR 0x27] @ ''B'' @ [CHR 0x27], tb)] ''B:1-2'' ext
             = Inr (None, [(''sheet '' @ [CHR 0x27] @ ''B'' @ [CHR 0x27] @ '' rows 1-2'',
                            join [CHR 0x0A] (take 2 (split_on (CHR 0x0A) tb)))])"
proof -
  have general: "filter_sections secs rs ext =
          Inr (None,
               map (\<lambda>(label, text).
                      case row_range s of
                        None \<Rightarrow> (label, text)
                      | Some rows \<Rightarrow>
                          (label @ '' rows '' @ str_int (Min rows) @ ''-'' @ str_int (Max rows),
                           join [CHR 0x0A] (nths (split_on (CHR 0x0A) text) {i. int i + 1 \<in> rows})))
                 (map snd (filter (\<lambda>(i, label, text). int i \<in> indices s \<or> sheet_name label \<in> names s)
                             (enumerate 1 secs))))"
    if "parse_sheet_selector rs = Inr s" "row_range s \<noteq> Some {}" for secs rs s
  proof -
    have "\<forall>R. row_range s = Some R \<longrightarrow> finite R \<and> R \<noteq> {}"
      using that parse_sheet_selector_rows_finite by blast
    from filter_sheets_eq [OF this, of 1 secs "[]"] show ?thesis
      using assms that(1) by (auto simp: filter_sections_def)
  qed
  have pB: "parse_sheet_selector ''B'' = Inr \<lparr>names = {''B''}, indices = {}, row_range = None\<rparr>"
    by code_simp
  have p1: "parse_sheet_selector ''1'' = Inr \<lparr>names = {}, indices = {1}, row_range = None\<rparr>"
    by code_simp
  have pBr: "parse_sheet_selector ''B:1-2'' = Inr \<lparr>names = {''B''}, indices = {}, row_range = Some {1, 2}\<rparr>"
    by code_simp
  have lo: "str_int 1 = ''1''" by (simp add: str_int_def str_nat.simps digit_char_def)
  have hi: "str_int 2 = ''2''" by (simp add: str_int_def str_nat.simps digit_char_def)
  have en: "enumerate 1 [x, y] = [(1, x), (2, y)]" for x y :: sect
    by (simp add: enumerate_simps)
  have exB: "filter_sections [(''sheet '' @ [CHR 0x27] @ ''A'' @ [CHR 0x27], ta),
                              (''sheet '' @ [CHR 0x27] @ ''B'' @ [CHR 0x27], tb)] ''B'' ext
             = Inr (None, [(''sheet '' @ [CHR 0x27] @ ''B'' @ [CHR 0x27], tb)])"
    by (subst general [OF pB]) (simp_all add: en sheet_name_def removeprefix_def removesuffix_def)
  have ex1: "filter_sections [(''sheet '' @ [CHR 0x27] @ ''A'' @ [CHR 0x27], ta),
                              (''sheet '' @ [CHR 0x27] @ ''B'' @ [CHR 0x27], tb)] ''1'' ext
             = Inr (None, [(''sheet '' @ [CHR 0x27] @ ''A'' @ [CHR 0x27], ta)])"
    by (subst general [OF p1]) (simp_all add: en sheet_name_def removeprefix_def removesuffix_def)
  have exBr: "filter_sections [(''sheet '' @ [CHR 0x27] @ ''A'' @ [CHR 0x27], ta),
                              (''sheet '' @ [CHR 0x27] @ ''B'' @ [CHR 0x27], tb)] ''B:1-2'' ext
             = Inr (None, [(''sheet '' @ [CHR 0x27] @ ''B'' @ [CHR 0x27] @ '' rows 1-2'',
                            join [CHR 0x0A] (take 2 (split_on (CHR 0x0A) tb)))])"
    by (subst general [OF pBr]) (simp_all add: en lo hi first_two_rows sheet_name_def removeprefix_def removesuffix_def)
  show ?thesis using general exB ex1 exBr by blast
qed

theorem sheet_selection_witness:
  "''.xlsx'' \<in> {''.xlsx'', ''.ods''}
   \<and> parse_sheet_selector ''2,A'' = Inr \<lparr>names = {''A''}, indices = {2}, row_range = None\<rparr>
   \<and> row_range \<lparr>names = {''A''}, indices = {2}, row_range = None\<rparr> \<noteq> Some {}
   \<and> filter_sections [(''sheet '' @ [CHR 0x27] @ ''A'' @ [CHR 0x27], ''a''),
                        (''sheet '' @ [CHR 0x27] @ ''B'' @ [CHR 0x27], ''b''),
                        (''sheet '' @ [CHR 0x27] @ ''C'' @ [CHR 0x27], ''c'')] ''2,A'' ''.xlsx''
       = Inr (None, [(''sheet '' @ [CHR 0x27] @ ''A'' @ [CHR 0x27], ''a''),
                     (''sheet '' @ [CHR 0x27] @ ''B'' @ [CHR 0x27], ''b'')])"
proof -
  have e: "''.xlsx'' \<in> {''.xlsx'', ''.ods''}" by simp
  have p: "parse_sheet_selector ''2,A'' = Inr \<lparr>names = {''A''}, indices = {2}, row_range = None\<rparr>"
    by code_simp
  have r: "row_range \<lparr>names = {''A''}, indices = {2}, row_range = None\<rparr> \<noteq> Some {}" by simp
  have en: "enumerate 1 [x, y, z] = [(1, x), (2, y), (3, z)]" for x y z :: sect
    by (simp add: enumerate_simps)
  have "filter_sections [(''sheet '' @ [CHR 0x27] @ ''A'' @ [CHR 0x27], ''a''),
                        (''sheet '' @ [CHR 0x27] @ ''B'' @ [CHR 0x27], ''b''),
                        (''sheet '' @ [CHR 0x27] @ ''C'' @ [CHR 0x27], ''c'')] ''2,A'' ''.xlsx''
       = Inr (None, [(''sheet '' @ [CHR 0x27] @ ''A'' @ [CHR 0x27], ''a''),
                     (''sheet '' @ [CHR 0x27] @ ''B'' @ [CHR 0x27], ''b'')])"
    using sheet_selection [OF e, THEN conjunct1, rule_format, OF conjI [OF p r]]
    by (simp add: en sheet_name_def removeprefix_def removesuffix_def)
  then show ?thesis using e p r by blast
qed


text \<open>
  The claim without the condition on the row range fails: \<open>"A:5-3"\<close> puts \<open>A\<close> in the
  name set with the empty row range \<open>range(5, 4)\<close>, and on the sheet \<open>A\<close> the call raises
  \<open>ValueError\<close> (\<open>min\<close> of the empty set) where the claim has the sheet selected.
\<close>

theorem sheet_selection_counterexample:
  "parse_sheet_selector ''A:5-3'' = Inr \<lparr>names = {''A''}, indices = {}, row_range = Some {}\<rparr>
   \<and> sheet_name (''sheet '' @ [CHR 0x27] @ ''A'' @ [CHR 0x27]) \<in> {''A''}
   \<and> filter_sections [(''sheet '' @ [CHR 0x27] @ ''A'' @ [CHR 0x27], ''a1'')] ''A:5-3'' ''.xlsx''
       = Inl ValueError"
  by code_simp

text \<open>
  Claim C10. With a row range \<open>rows\<close> that is not empty, every selected sheet is in the
  output, relabelled \<open>{label} rows {min}-{max}\<close>; a selected sheet that has none of the
  requested rows is there with the empty text. The branch for \<open>.docx\<close>, \<open>.odt\<close> and
  \<open>.rtf\<close> instead drops a section that has none of the requested lines.
\<close>

theorem selected_sheet_emitted_without_rows:
  assumes "ext \<in> {''.xlsx'', ''.ods''}"
      and "parse_sheet_selector range_str = Inr sel"
      and "row_range sel = Some rows" "rows \<noteq> {}"
  shows "filter_sections sections range_str ext =
           Inr (None,
                map (\<lambda>(label, text).
                       (label @ '' rows '' @ str_int (Min rows) @ ''-'' @ str_int (Max rows),
                        if \<exists>i<length (split_on (CHR 0x0A) text). int i + 1 \<in> rows
                        then join [CHR 0x0A] (nths (split_on (CHR 0x0A) text) {i. int i + 1 \<in> rows})
                        else []))
                  (map snd (filter (\<lambda>(i, label, text). int i \<in> indices sel \<or> sheet_name label \<in> names sel)
                              (enumerate 1 sections))))
         \<and> (ext' \<in> {''.docx'', ''.odt'', ''.rtf''} \<and> parse_numeric_range range_str' = Inr R
              \<and> \<not> (\<exists>i<length (split_on (CHR 0x0A) text'). int i + 1 \<in> R) \<longrightarrow>
              filter_sections [(label', text')] range_str' ext' = Inr (None, []))"
proof (intro conjI impI)
  have fin: "\<forall>Q. row_range sel = Some Q \<longrightarrow> finite Q \<and> Q \<noteq> {}"
    using assms(2-4) parse_sheet_selector_rows_finite by auto
  have same: "(\<lambda>(label, text).
                 case row_range sel of
                   None \<Rightarrow> (label, text)
                 | Some rows \<Rightarrow>
                     (label @ '' rows '' @ str_int (Min rows) @ ''-'' @ str_int (Max rows),
                      join [CHR 0x0A] (nths (split_on (CHR 0x0A) text) {i. int i + 1 \<in> rows})))
            = (\<lambda>(label, text).
                 (label @ '' rows '' @ str_int (Min rows) @ ''-'' @ str_int (Max rows),
                  if \<exists>i<length (split_on (CHR 0x0A) text). int i + 1 \<in> rows
                  then join [CHR 0x0A] (nths (split_on (CHR 0x0A) text) {i. int i + 1 \<in> rows})
                  else []))"
  proof -
    have "nths xs {i. int i + 1 \<in> rows} = []" if "\<forall>i<length xs. int i + 1 \<notin> rows" for xs :: "string list"
      using that by (simp add: nths_empty_iff)
    then show ?thesis by (auto simp: fun_eq_iff assms(3))
  qed
  show "filter_sections sections range_str ext =
           Inr (None,
                map (\<lambda>(label, text).
                       (label @ '' rows '' @ str_int (Min rows) @ ''-'' @ str_int (Max rows),
                        if \<exists>i<length (split_on (CHR 0x0A) text). int i + 1 \<in> rows
                        then join [CHR 0x0A] (nths (split_on (CHR 0x0A) text) {i. int i + 1 \<in> rows})
                        else []))
                  (map snd (filter (\<lambda>(i, label, text). int i \<in> indices sel \<or> sheet_name label \<in> names sel)
                              (enumerate 1 sections))))"
    unfolding same [symmetric]
    using filter_sheets_eq [OF fin, of 1 sections "[]"] assms(1,2)
    by (auto simp: filter_sections_def)
next
  assume a: "ext' \<in> {''.docx'', ''.odt'', ''.rtf''} \<and> parse_numeric_range range_str' = Inr R
              \<and> \<not> (\<exists>i<length (split_on (CHR 0x0A) text'). int i + 1 \<in> R)"
  then have "finite R" using parse_numeric_range_finite by blast
  from filter_by_lines_eq [OF this, of "[(label', text')]" "[]"] a
  show "filter_sections [(label', text')] range_str' ext' = Inr (None, [])"
    by (auto simp: filter_sections_def)
qed

theorem selected_sheet_emitted_without_rows_witness:
  "''.xlsx'' \<in> {''.xlsx'', ''.ods''}
   \<and> parse_sheet_selector ''A:7-9'' = Inr \<lparr>names = {''A''}, indices = {}, row_range = Some {7, 8, 9}\<rparr>
   \<and> {7, 8, 9} \<noteq> ({} :: int set)
   \<and> filter_sections [(''sheet '' @ [CHR 0x27] @ ''A'' @ [CHR 0x27], ''a1'')] ''A:7-9'' ''.xlsx''
       = Inr (None, [(''sheet '' @ [CHR 0x27] @ ''A'' @ [CHR 0x27] @ '' rows 7-9'', [])])
   \<and> ''.docx'' \<in> {''.docx'', ''.odt'', ''.rtf''}
   \<and> parse_numeric_range ''7-9'' = Inr {7, 8, 9}
   \<and> \<not> (\<exists>i<length (split_on (CHR 0x0A) ''a1''). int i + 1 \<in> {7, 8, 9::int})
   \<and> filter_sections [(''document'', ''a1'')] ''7-9'' ''.docx'' = Inr (None, [])"
proof -
  have e: "''.xlsx'' \<in> {''.xlsx'', ''.ods''}" by simp
  have p: "parse_sheet_selector ''A:7-9'' = Inr \<lparr>names = {''A''}, indices = {}, row_range = Some {7, 8, 9}\<rparr>"
    by code_simp
  have r: "row_range \<lparr>names = {''A''}, indices = {}, row_range = Some {7, 8, 9}\<rparr> = Some {7, 8, 9}"
    by simp
  have n: "{7, 8, 9} \<noteq> ({} :: int set)" by simp
  have e': "''.docx'' \<in> {''.docx'', ''.odt'', ''.rtf''}" by simp
  have p': "parse_numeric_range ''7-9'' = Inr {7, 8, 9}" by code_simp
  have none: "\<not> (\<exists>i<length (split_on (CHR 0x0A) ''a1''). int i + 1 \<in> {7, 8, 9::int})" by simp
  have lo: "str_int 7 = ''7''" by (simp add: str_int_def str_nat.simps digit_char_def)
  have hi: "str_int 9 = ''9''" by (simp add: str_int_def str_nat.simps digit_char_def)
  note inst = selected_sheet_emitted_without_rows [OF e p r n,
      of "[(''sheet '' @ [CHR 0x27] @ ''A'' @ [CHR 0x27], ''a1'')]" "''.docx''" "''7-9''" "{7, 8, 9}"
         "''a1''" "''document''"]
  have s: "filter_sections [(''sheet '' @ [CHR 0x27] @ ''A'' @ [CHR 0x27], ''a1'')] ''A:7-9'' ''.xlsx''
       = Inr (None, [(''sheet '' @ [CHR 0x27] @ ''A'' @ [CHR 0x27] @ '' rows 7-9'', [])])"
    using inst [THEN conjunct1]
    by (simp add: enumerate_simps sheet_name_def removeprefix_def removesuffix_def lo hi)
  have d: "filter_sections [(''document'', ''a1'')] ''7-9'' ''.docx'' = Inr (None, [])"
    using inst [THEN conjunct2] e' p' none by blast
  show ?thesis using e p n s e' p' none d by blast
qed

lemma is_digit_plain:
  "is_digit c \<Longrightarrow> \<not> is_int_space c \<and> c \<noteq> CHR ''_'' \<and> c \<noteq> CHR ''-'' \<and> c \<noteq> CHR ''+''"
  by (auto simp: is_digit_def is_int_space_def)

lemma strip_by_unchanged:
  assumes "s \<noteq> []" "\<not> P (hd s)" "\<not> P (last s)"
  shows "strip_by P s = s"
proof -
  have a: "dropWhile P s = s" using assms(2) by (simp add: dropWhile_eq_self_iff)
  have b: "dropWhile P (rev s) = rev s" using assms(1,3) by (simp add: dropWhile_eq_self_iff hd_rev)
  show ?thesis unfolding strip_by_def a b by simp
qed

lemma no_double_underscore: "CHR ''_'' \<notin> set s \<Longrightarrow> \<not> double_underscore s"
  by (induction s rule: double_underscore.induct) auto

lemma py_int_of_digits:
  assumes "ds \<noteq> []" "\<forall>c\<in>set ds. is_digit c" "length ds \<le> int_max_str_digits"
  shows "py_int ds = Some (int (digits_value ds))"
proof -
  obtain c r where ds: "ds = c # r" using assms(1) by (cases ds) auto
  have h: "is_digit (hd ds)" and l: "is_digit (last ds)" using assms(1,2) by auto
  have st: "strip_by is_int_space ds = ds"
    using assms(1) h l by (intro strip_by_unchanged) (auto dest: is_digit_plain)
  have f: "filter is_digit ds = ds" using assms(2) by simp
  have all: "list_all (\<lambda>c. is_digit c \<or> c = CHR ''_'') ds" using assms(2) by (simp add: list_all_iff)
  have nu: "CHR ''_'' \<notin> set ds" using assms(2) is_digit_plain by blast
  have "py_int_digits ds = Some (digits_value ds)"
    unfolding py_int_digits_def f
    using assms(1,3) all h l no_double_underscore [OF nu] by (auto dest: is_digit_plain)
  moreover have "c \<noteq> CHR ''-''" "c \<noteq> CHR ''+''" using h ds is_digit_plain by auto
  ultimately show ?thesis unfolding py_int_def st by (simp add: ds)
qed

lemma trailing_digits_are_digits: "\<forall>c\<in>set (trailing_digits s). is_digit c"
  by (auto simp: trailing_digits_def dest: set_takeWhileD)

lemma match_section_number_plain:
  assumes "CHR 0x0A \<notin> set label"
  shows "match_section_number label =
           (if trailing_digits label = [] then None else Some (trailing_digits label))"
proof -
  have "label \<noteq> [] \<Longrightarrow> last label \<noteq> CHR 0x0A" using assms last_in_set by metis
  moreover have "CHR 0x0A \<notin> set (take n label)" for n using assms by (auto dest: in_set_takeD)
  ultimately show ?thesis by (auto simp: match_section_number_def Let_def)
qed

lemma extract_section_number_plain:
  assumes "CHR 0x0A \<notin> set label" "length (trailing_digits label) \<le> int_max_str_digits"
  shows "extract_section_number label =
           Inr (if trailing_digits label = [] then None
                else Some (int (digits_value (trailing_digits label))))"
  unfolding extract_section_number_def match_section_number_plain [OF assms(1)]
  using py_int_of_digits [OF _ trailing_digits_are_digits assms(2)] by simp

lemma filter_numbered_eq:
  assumes "\<forall>(label, text)\<in>set secs.
             CHR 0x0A \<notin> set label \<and> length (trailing_digits label) \<le> int_max_str_digits"
  shows "filter_numbered nums secs =
           Inr (filter (\<lambda>(label, text).
                          trailing_digits label \<noteq> []
                          \<and> int (digits_value (trailing_digits label)) \<in> nums) secs)"
  using assms
proof (induction secs)
  case Nil
  show ?case by simp
next
  case (Cons sec secs)
  obtain label body where sec: "sec = (label, body)" by (cases sec)
  from Cons.prems have "CHR 0x0A \<notin> set label" "length (trailing_digits label) \<le> int_max_str_digits"
    unfolding sec by auto
  note e = extract_section_number_plain [OF this]
  from Cons.prems have "filter_numbered nums secs =
           Inr (filter (\<lambda>(label, text).
                          trailing_digits label \<noteq> []
                          \<and> int (digits_value (trailing_digits label)) \<in> nums) secs)"
    by (intro Cons.IH) auto
  then show ?case unfolding sec by (simp add: e)
qed

text \<open>
  Claim C8. For \<open>.pdf\<close>, \<open>.pptx\<close>, \<open>.odp\<close> and \<open>.epub\<close>, with \<open>nums\<close> the parsed set: a
  section is kept exactly when its label ends in digits and the number they spell is in
  \<open>nums\<close>; a label that does not end in a digit is never kept; the kept sections are
  the given ones, unchanged and in order. The labels are those the decoders write
  (\<open>page 3\<close>, \<open>slide 2\<close>, \<open>chapter 5\<close>): they hold no line feed, and their number has no
  more digits than \<open>int\<close> accepts. On the labels \<open>page 1\<close>, \<open>page 2\<close>, \<open>page 10\<close> the range
  \<open>"2,10"\<close> keeps pages 2 and 10.
\<close>

theorem numbered_label_filter:
  assumes "ext \<in> {''.pdf'', ''.pptx'', ''.odp'', ''.epub''}"
  shows "(parse_numeric_range range_str = Inr nums
          \<and> (\<forall>(label, text)\<in>set sections.
                CHR 0x0A \<notin> set label \<and> length (trailing_digits label) \<le> int_max_str_digits) \<longrightarrow>
            filter_sections sections range_str ext =
              Inr (None,
                   filter (\<lambda>(label, text).
                             trailing_digits label \<noteq> []
                             \<and> int (digits_value (trailing_digits label)) \<in> nums) sections))
         \<and> filter_sections [(''page 1'', t1), (''page 2'', t2), (''page 10'', t3)] ''2,10'' ext
             = Inr (None, [(''page 2'', t2), (''page 10'', t3)])"
proof -
  have branch: "ext \<notin> {''.docx'', ''.odt'', ''.rtf''}" "ext \<notin> {''.xlsx'', ''.ods''}"
    using assms by auto
  have general: "filter_sections secs rs ext =
              Inr (None,
                   filter (\<lambda>(label, text).
                             trailing_digits label \<noteq> []
                             \<and> int (digits_value (trailing_digits label)) \<in> Q) secs)"
    if "parse_numeric_range rs = Inr Q"
       "\<forall>(label, text)\<in>set secs.
          CHR 0x0A \<notin> set label \<and> length (trailing_digits label) \<le> int_max_str_digits"
    for secs rs Q
    unfolding filter_sections_def using branch that(1) filter_numbered_eq [OF that(2), of Q]
    by (simp del: insert_iff)
  have p: "parse_numeric_range ''2,10'' = Inr {2, 10}" by code_simp
  have td: "trailing_digits ''page 1'' = ''1''" "trailing_digits ''page 2'' = ''2''"
           "trailing_digits ''page 10'' = ''10''"
    by (simp_all add: trailing_digits_def is_digit_def)
  have dv: "digits_value ''1'' = 1" "digits_value ''2'' = 2" "digits_value ''10'' = 10"
    by (simp_all add: digits_value_def digit_val_def)
  have ok: "\<forall>(label, text)\<in>set [(''page 1'', t1), (''page 2'', t2), (''page 10'', t3)].
              CHR 0x0A \<notin> set label \<and> length (trailing_digits label) \<le> int_max_str_digits"
    by (simp add: td int_max_str_digits_def)
  have "filter_sections [(''page 1'', t1), (''page 2'', t2), (''page 10'', t3)] ''2,10'' ext
             = Inr (None, [(''page 2'', t2), (''page 10'', t3)])"
    unfolding general [OF p ok] by (simp add: td dv)
  then show ?thesis using general by blast
qed

theorem numbered_label_filter_witness:
  "''.pdf'' \<in> {''.pdf'', ''.pptx'', ''.odp'', ''.epub''}
   \<and> parse_numeric_range ''3'' = Inr {3}
   \<and> CHR 0x0A \<notin> set ''slide 3'' \<union> set ''notes'' \<union> set ''slide 4''
   \<and> length (trailing_digits ''slide 3'') \<le> int_max_str_digits
   \<and> length (trailing_digits ''notes'') \<le> int_max_str_digits
   \<and> length (trailing_digits ''slide 4'') \<le> int_max_str_digits
   \<and> filter_sections [(''slide 3'', ''x''), (''notes'', ''y''), (''slide 4'', ''z'')] ''3'' ''.pdf''
       = Inr (None, [(''slide 3'', ''x'')])"
proof -
  have e: "''.pdf'' \<in> {''.pdf'', ''.pptx'', ''.odp'', ''.epub''}" by simp
  have p: "parse_numeric_range ''3'' = Inr {3}" by code_simp
  have td: "trailing_digits ''slide 3'' = ''3''" "trailing_digits ''notes'' = []"
           "trailing_digits ''slide 4'' = ''4''"
    by (simp_all add: trailing_digits_def is_digit_def)
  have dv: "digits_value ''3'' = 3" "digits_value ''4'' = 4"
    by (simp_all add: digits_value_def digit_val_def)
  have ok: "\<forall>(label, text)\<in>set [(''slide 3'', ''x''), (''notes'', ''y''), (''slide 4'', ''z'')].
         CHR 0x0A \<notin> set label \<and> length (trailing_digits label) \<le> int_max_str_digits"
    by (simp add: td int_max_str_digits_def)
  have "filter_sections [(''slide 3'', ''x''), (''notes'', ''y''), (''slide 4'', ''z'')] ''3'' ''.pdf''
       = Inr (None, [(''slide 3'', ''x'')])"
    using numbered_label_filter [OF e, THEN conjunct1, rule_format, OF conjI [OF p ok]]
    by (simp add: td dv)
  moreover have "CHR 0x0A \<notin> set ''slide 3'' \<union> set ''notes'' \<union> set ''slide 4''" by simp
  moreover have "length (trailing_digits ''slide 3'') \<le> int_max_str_digits"
    "length (trailing_digits ''notes'') \<le> int_max_str_digits"
    "length (trailing_digits ''slide 4'') \<le> int_max_str_digits"
    by (simp_all add: td int_max_str_digits_def)
  ultimately show ?thesis using e p by blast
qed

section \<open>Properties of reading\<close>

lemma truncation_notice_text:
  "truncation_notice =
     [CHR 0x0A, CHR 0x0A] @ ''... output truncated at 40000 chars. Use range to narrow results.''"
  by (simp add: truncation_notice_def MAX_OUTPUT_CHARS_def str_int_def str_nat.simps digit_char_def)

text \<open>
  Claim C2. Whenever \<open>docread\<close> gets as far as rendering (the path is a file with a
  supported extension, extraction and filtering succeed and leave a section): if the
  rendered text has more than 40000 characters, the result is its first 40000
  characters followed by the fixed notice, which names the cap and points to \<open>range\<close>;
  if it has at most 40000 characters, the result is the rendered text itself.
\<close>

theorem docread_output_cap:
  assumes "is_a_file" "lower suffix \<in> SUPPORTED_EXTENSIONS"
      and "apply_range sections range_arg (lower suffix) = Inr (warning, kept)" "kept \<noteq> []"
  shows "(40000 < length (render_output warning kept) \<longrightarrow>
            docread is_a_file suffix (Inr sections) range_arg =
              Inr (take 40000 (render_output warning kept) @ [CHR 0x0A, CHR 0x0A]
                     @ ''... output truncated at 40000 chars. Use range to narrow results.'')
            \<and> length (take 40000 (render_output warning kept)) = 40000)
         \<and> (length (render_output warning kept) \<le> 40000 \<longrightarrow>
              docread is_a_file suffix (Inr sections) range_arg = Inr (render_output warning kept))"
  using assms
  by (simp add: docread_def cap_output_def MAX_OUTPUT_CHARS_def truncation_notice_text)

theorem docread_output_cap_witness:
  "lower ''.PDF'' \<in> SUPPORTED_EXTENSIONS
   \<and> apply_range [(''page 1'', replicate 40001 CHR ''a'')] None (lower ''.PDF'')
       = Inr (None, [(''page 1'', replicate 40001 CHR ''a'')])
   \<and> [(''page 1'', replicate 40001 CHR ''a'')] \<noteq> []
   \<and> 40000 < length (render_output None [(''page 1'', replicate 40001 CHR ''a'')])
   \<and> docread True ''.PDF'' (Inr [(''page 1'', replicate 40001 CHR ''a'')]) None =
       Inr (''=== page 1 ==='' @ [CHR 0x0A] @ replicate 39985 CHR ''a'' @ [CHR 0x0A, CHR 0x0A]
              @ ''... output truncated at 40000 chars. Use range to narrow results.'')"
proof -
  have s: "lower ''.PDF'' \<in> SUPPORTED_EXTENSIONS"
    by code_simp
  have a: "apply_range [(''page 1'', replicate 40001 CHR ''a'')] None (lower ''.PDF'')
       = Inr (None, [(''page 1'', replicate 40001 CHR ''a'')])"
    by (simp add: apply_range_def)
  have n: "[(''page 1'', replicate 40001 CHR ''a'')] \<noteq> []" by simp
  have r: "render_output None [(''page 1'', replicate 40001 CHR ''a'')]
             = ''=== page 1 ==='' @ [CHR 0x0A] @ replicate 40001 CHR ''a'' @ [CHR 0x0A]"
    by (simp add: render_output_def render_section_def)
  have l: "40000 < length (render_output None [(''page 1'', replicate 40001 CHR ''a'')])"
    unfolding r by simp
  have t: "take 40000 (render_output None [(''page 1'', replicate 40001 CHR ''a'')])
             = ''=== page 1 ==='' @ [CHR 0x0A] @ replicate 39985 CHR ''a''"
    unfolding r by simp
  have "docread True ''.PDF'' (Inr [(''page 1'', replicate 40001 CHR ''a'')]) None =
       Inr (''=== page 1 ==='' @ [CHR 0x0A] @ replicate 39985 CHR ''a'' @ [CHR 0x0A, CHR 0x0A]
              @ ''... output truncated at 40000 chars. Use range to narrow results.'')"
    using docread_output_cap [OF TrueI s a n, THEN conjunct1, rule_format, OF l, THEN conjunct1]
    unfolding t by simp
  then show ?thesis using s a n l by blast
qed

section \<open>Properties of searching\<close>

lemma capped_full: "m \<le> int (length rs) \<Longrightarrow> capped m rs new = rs"
  by (simp add: capped_def)

lemma capped_Nil [simp]: "capped m rs [] = rs"
  by (simp add: capped_def)

lemma capped_snoc:
  assumes "\<not> m \<le> int (length rs)"
  shows "capped m (rs @ [x]) ys = capped m rs (x # ys)"
proof (cases "m \<le> int (length (rs @ [x]))")
  case True
  with assms have "nat m = Suc (length rs)" by simp
  then show ?thesis using True assms by (simp add: capped_def)
next
  case False
  then show ?thesis using assms by (simp add: capped_def)
qed

lemma capped_append: "capped m (capped m rs a) b = capped m rs (a @ b)"
proof (cases "m \<le> int (length rs)")
  case True
  then show ?thesis by (simp add: capped_def)
next
  case False
  show ?thesis
  proof (cases "nat m \<le> length (rs @ a)")
    case True
    then have "take (nat m) (rs @ a @ b) = take (nat m) (rs @ a)" by simp
    moreover have "m \<le> int (length (take (nat m) (rs @ a)))" using True by simp
    ultimately show ?thesis using False by (simp add: capped_def)
  next
    case short: False
    then have "take (nat m) (rs @ a) = rs @ a" by simp
    moreover have "\<not> m \<le> int (length (rs @ a))" using short by simp
    ultimately show ?thesis using False by (simp add: capped_def)
  qed
qed

lemma length_capped: "int (length (capped m rs new)) \<le> max m (int (length rs))"
  by (auto simp: capped_def min_def)

lemma scan_lines_capped: "max_results \<le> int (length (results st)) \<Longrightarrow>
    scan_lines regex max_results rel section_label ls st = st"
  by (cases ls) simp_all

lemma scan_sections_capped: "max_results \<le> int (length (results st)) \<Longrightarrow>
    scan_sections regex max_results rel secs st = st"
  by (cases secs) auto

lemma walk_capped: "max_results \<le> int (length (results st)) \<Longrightarrow>
    walk regex exts max_results es st = st"
  by (cases es) simp_all

lemma scan_lines_results:
  "results (scan_lines regex max_results rel section_label ls st) =
     capped max_results (results st) (line_results regex rel section_label ls)"
proof (induction ls arbitrary: st)
  case Nil
  show ?case by (simp add: line_results_def)
next
  case (Cons l ls)
  show ?case
  proof (cases "max_results \<le> int (length (results st))")
    case True
    then show ?thesis by (simp add: capped_full)
  next
    case False
    show ?thesis
    proof (cases "regex l")
      case True
      have "line_results regex rel section_label (l # ls)
              = (path_str rel @ '':'' @ section_label @ '':'' @ py_strip l)
                  # line_results regex rel section_label ls"
        using True by (simp add: line_results_def)
      then show ?thesis
        using False True capped_snoc [OF False, symmetric]
        by (simp add: Cons.IH Let_def)
    next
      case nomatch: False
      have "line_results regex rel section_label (l # ls) = line_results regex rel section_label ls"
        using nomatch by (simp add: line_results_def)
      then show ?thesis using False nomatch by (simp add: Cons.IH Let_def)
    qed
  qed
qed

lemma scan_sections_results:
  "results (scan_sections regex max_results rel secs st) =
     capped max_results (results st) (section_results regex rel secs)"
proof (induction secs arbitrary: st)
  case Nil
  show ?case by (simp add: section_results_def)
next
  case (Cons sec secs)
  obtain section_label body where sec: "sec = (section_label, body)" by (cases sec)
  show ?case
  proof (cases "max_results \<le> int (length (results st))")
    case True
    then show ?thesis unfolding sec by (simp add: capped_full)
  next
    case False
    then show ?thesis
      unfolding sec
      by (simp add: Cons.IH scan_lines_results capped_append section_results_def)
  qed
qed

lemma walk_results:
  "results (walk regex exts max_results es st) =
     capped max_results (results st) (concat (map (entry_results regex exts) es))"
proof (induction es arbitrary: st)
  case Nil
  show ?case by simp
next
  case (Cons e es)
  show ?case
  proof (cases "max_results \<le> int (length (results st))")
    case True
    then show ?thesis by (simp add: capped_full)
  next
    case False
    show ?thesis
    proof (cases "eligible exts e")
      case skip: False
      then have "walk regex exts max_results (e # es) st = walk regex exts max_results es st"
        using False by (auto simp: eligible_def)
      then show ?thesis using skip by (simp add: Cons.IH entry_results_def)
    next
      case True
      show ?thesis
      proof (cases "extracted e")
        case (Inl msg)
        then show ?thesis
          using False True capped_snoc [OF False, symmetric]
          by (simp add: Cons.IH entry_results_def eligible_def Let_def)
      next
        case (Inr sections)
        then show ?thesis
          using False True
          by (simp add: Cons.IH entry_results_def eligible_def Let_def scan_sections_results
                capped_append)
      qed
    qed
  qed
qed

lemma docgrep_walk_results:
  "results (docgrep_walk regex file_types max_results es) =
     take (nat max_results) (concat (map (entry_results regex (allowed_exts file_types)) es))"
  by (simp add: docgrep_walk_def walk_results capped_def)


lemma length_capped_ge: "length rs \<le> length (capped m rs new)"
  by (auto simp: capped_def min_def)

lemma walk_append:
  "walk regex exts max_results (es1 @ es2) st
     = walk regex exts max_results es2 (walk regex exts max_results es1 st)"
proof (induction es1 arbitrary: st)
  case Nil
  show ?case by simp
next
  case (Cons e es1)
  show ?case
  proof (cases "max_results \<le> int (length (results st))")
    case True
    then show ?thesis by (simp add: walk_capped)
  next
    case False
    then show ?thesis by (simp add: Cons.IH Let_def split: sum.splits)
  qed
qed

lemma walk_skips_hidden:
  "walk regex exts max_results (filter (\<lambda>e. \<not> hidden (parts e)) es) st
     = walk regex exts max_results es st"
proof (induction es arbitrary: st)
  case Nil
  show ?case by simp
next
  case (Cons e es)
  show ?case
  proof (cases "max_results \<le> int (length (results st))")
    case True
    then show ?thesis by (simp add: walk_capped)
  next
    case False
    then show ?thesis by (simp add: Cons.IH Let_def split: sum.splits)
  qed
qed

lemma scan_lines_calls:
  "c \<in> set (calls (scan_lines regex max_results rel section_label ls st)) \<Longrightarrow>
     c \<in> set (calls st) \<or> call_path c = rel"
proof (induction ls arbitrary: st)
  case Nil
  then show ?case by simp
next
  case (Cons l ls)
  show ?case
  proof (cases "max_results \<le> int (length (results st))")
    case True
    with Cons.prems show ?thesis by simp
  next
    case False
    obtain st' where w: "scan_lines regex max_results rel section_label (l # ls) st
                           = scan_lines regex max_results rel section_label ls st'"
      and c: "calls st' = calls st @ [RegexSearch rel section_label l]"
    proof (cases "regex l")
      case True
      show ?thesis
        by (rule that [of "st\<lparr>calls := calls st @ [RegexSearch rel section_label l],
                   results := results st
                     @ [path_str rel @ '':'' @ section_label @ '':'' @ py_strip l]\<rparr>"])
           (use False True in \<open>simp_all add: Let_def\<close>)
    next
      case nomatch: False
      show ?thesis
        by (rule that [of "st\<lparr>calls := calls st @ [RegexSearch rel section_label l]\<rparr>"])
           (use False nomatch in \<open>simp_all add: Let_def\<close>)
    qed
    from Cons.prems have "c \<in> set (calls st') \<or> call_path c = rel"
      unfolding w by (rule Cons.IH)
    then show ?thesis unfolding c by auto
  qed
qed

lemma scan_sections_calls:
  "c \<in> set (calls (scan_sections regex max_results rel secs st)) \<Longrightarrow>
     c \<in> set (calls st) \<or> call_path c = rel"
proof (induction secs arbitrary: st)
  case Nil
  then show ?case by simp
next
  case (Cons sec secs)
  obtain section_label body where sec: "sec = (section_label, body)" by (cases sec)
  from Cons.prems show ?case
    unfolding sec by (auto split: if_splits dest!: Cons.IH scan_lines_calls)
qed

lemma walk_calls:
  "c \<in> set (calls (walk regex exts max_results es st)) \<Longrightarrow>
     c \<in> set (calls st) \<or> (\<exists>e\<in>set es. eligible exts e \<and> call_path c = parts e)"
proof (induction es arbitrary: st)
  case Nil
  then show ?case by simp
next
  case (Cons e es)
  show ?case
  proof (cases "max_results \<le> int (length (results st)) \<or> \<not> eligible exts e")
    case True
    then have "walk regex exts max_results (e # es) st = st
               \<or> walk regex exts max_results (e # es) st = walk regex exts max_results es st"
      by (auto simp: eligible_def)
    with Cons.prems Cons.IH [of st] show ?thesis by auto
  next
    case False
    then have go: "\<not> max_results \<le> int (length (results st))" and el: "eligible exts e" by auto
    show ?thesis
    proof (cases "extracted e")
      case (Inl msg)
      with go el Cons.prems
      have "c \<in> set (calls (walk regex exts max_results es
               (st\<lparr>calls := calls st @ [ExtractText (parts e)],
                   results := results st @ [path_str (parts e) @ '':error:'' @ msg]\<rparr>)))"
        by (simp add: eligible_def Let_def)
      from Cons.IH [OF this] el show ?thesis by auto
    next
      case (Inr sections)
      with go el Cons.prems
      have "c \<in> set (calls (walk regex exts max_results es
               (scan_sections regex max_results (parts e) sections
                  (st\<lparr>calls := calls st @ [ExtractText (parts e)]\<rparr>))))"
        by (simp add: eligible_def Let_def)
      from Cons.IH [OF this] el show ?thesis by (auto dest!: scan_sections_calls)
    qed
  qed
qed

lemma scan_lines_keeps_calls:
  "c \<in> set (calls st) \<Longrightarrow> c \<in> set (calls (scan_lines regex max_results rel section_label ls st))"
  by (induction ls arbitrary: st) (auto simp: Let_def)

lemma scan_sections_keeps_calls:
  "c \<in> set (calls st) \<Longrightarrow> c \<in> set (calls (scan_sections regex max_results rel secs st))"
proof (induction secs arbitrary: st)
  case Nil
  then show ?case by simp
next
  case (Cons sec secs)
  obtain section_label body where sec: "sec = (section_label, body)" by (cases sec)
  from Cons.prems show ?case
    unfolding sec by (auto intro!: Cons.IH scan_lines_keeps_calls)
qed

lemma walk_keeps_calls:
  "c \<in> set (calls st) \<Longrightarrow> c \<in> set (calls (walk regex exts max_results es st))"
proof (induction es arbitrary: st)
  case Nil
  then show ?case by simp
next
  case (Cons e es)
  then show ?case
    by (auto simp: Let_def split: sum.splits intro!: Cons.IH scan_sections_keeps_calls)
qed

lemma walk_results_grow:
  "length (results st) \<le> length (results (walk regex exts max_results es st))"
  by (simp add: walk_results length_capped_ge)

lemma walk_extracts_all:
  "int (length (results (walk regex exts max_results es st))) < max_results \<Longrightarrow>
     e \<in> set es \<Longrightarrow> eligible exts e \<Longrightarrow>
     ExtractText (parts e) \<in> set (calls (walk regex exts max_results es st))"
proof (induction es arbitrary: st)
  case Nil
  then show ?case by simp
next
  case (Cons e0 es)
  have go: "\<not> max_results \<le> int (length (results st))"
    using Cons.prems(1) walk_results_grow [of st regex exts max_results "e0 # es"] by linarith
  show ?case
  proof (cases "eligible exts e0")
    case False
    then have w: "walk regex exts max_results (e0 # es) st = walk regex exts max_results es st"
      using go by (auto simp: eligible_def)
    from False Cons.prems(2,3) have "e \<in> set es" by auto
    from Cons.IH [OF _ this Cons.prems(3)] Cons.prems(1) show ?thesis unfolding w by simp
  next
    case True
    obtain st' where w: "walk regex exts max_results (e0 # es) st = walk regex exts max_results es st'"
      and c: "ExtractText (parts e0) \<in> set (calls st')"
    proof (cases "extracted e0")
      case (Inl msg)
      show ?thesis
        by (rule that [of "st\<lparr>calls := calls st @ [ExtractText (parts e0)],
                   results := results st @ [path_str (parts e0) @ '':error:'' @ msg]\<rparr>"])
           (use go True Inl in \<open>simp_all add: eligible_def Let_def\<close>)
    next
      case (Inr sections)
      show ?thesis
        by (rule that [of "scan_sections regex max_results (parts e0) sections
                  (st\<lparr>calls := calls st @ [ExtractText (parts e0)]\<rparr>)"])
           (use go True Inr in \<open>simp_all add: eligible_def Let_def scan_sections_keeps_calls\<close>)
    qed
    show ?thesis
    proof (cases "e = e0")
      case True
      then show ?thesis unfolding w using c by (simp add: walk_keeps_calls)
    next
      case False
      with Cons.prems(2) have "e \<in> set es" by simp
      from Cons.IH [OF _ this Cons.prems(3)] Cons.prems(1) show ?thesis unfolding w by simp
    qed
  qed
qed

lemma entry_results_origin:
  "r \<in> set (entry_results regex exts e) \<Longrightarrow>
     eligible exts e \<and> (\<exists>rest. r = path_str (parts e) @ '':'' @ rest)"
  by (auto simp: entry_results_def section_results_def line_results_def
           split: if_splits sum.splits)

text \<open>
  Claim C1. The walk never holds more than \<open>max_results\<close> results, matches and error lines
  together (none at all when \<open>max_results\<close> is zero or negative). Once the number of results
  has reached \<open>max_results\<close>, each of the three loops returns the state as it is, whatever
  entries, sections or lines remain: no result is added, and no further \<open>extract_text\<close> or
  \<open>regex.search\<close> is called. So when the entries walked so far have filled the cap, the
  entries after them change nothing. What \<open>docgrep\<close> returns is these results joined by
  line feeds, or the sentinel when there is none.
\<close>

theorem docgrep_result_cap:
  "int (length (results (docgrep_walk regex file_types max_results entries))) \<le> max 0 max_results
   \<and> (max_results \<le> int (length (results st)) \<longrightarrow>
        walk regex exts max_results rest st = st
        \<and> scan_sections regex max_results rel sections st = st
        \<and> scan_lines regex max_results rel section_label lines st = st)
   \<and> (max_results \<le> int (length (results (docgrep_walk regex file_types max_results entries))) \<longrightarrow>
        docgrep_walk regex file_types max_results (entries @ more_entries)
          = docgrep_walk regex file_types max_results entries)
   \<and> docgrep True (Some regex) file_types max_results entries
       = Inr (if results (docgrep_walk regex file_types max_results entries) = []
              then ''No matches found.''
              else join [CHR 0x0A] (results (docgrep_walk regex file_types max_results entries)))"
proof (intro conjI impI)
  show "docgrep True (Some regex) file_types max_results entries
       = Inr (if results (docgrep_walk regex file_types max_results entries) = []
              then ''No matches found.''
              else join [CHR 0x0A] (results (docgrep_walk regex file_types max_results entries)))"
    by (simp add: docgrep_def Let_def)
next
  show "int (length (results (docgrep_walk regex file_types max_results entries))) \<le> max 0 max_results"
    using length_capped [of max_results "[]" "concat (map (entry_results regex (allowed_exts file_types)) entries)"]
    by (simp add: docgrep_walk_def walk_results max.commute)
next
  assume "max_results \<le> int (length (results st))"
  then show "walk regex exts max_results rest st = st"
    and "scan_sections regex max_results rel sections st = st"
    and "scan_lines regex max_results rel section_label lines st = st"
    by (simp_all add: walk_capped scan_sections_capped scan_lines_capped)
next
  assume "max_results \<le> int (length (results (docgrep_walk regex file_types max_results entries)))"
  then show "docgrep_walk regex file_types max_results (entries @ more_entries)
          = docgrep_walk regex file_types max_results entries"
    by (simp add: docgrep_walk_def walk_append walk_capped)
qed

theorem docgrep_result_cap_witness:
  "(1::int) \<le> int (length (results (docgrep_walk (\<lambda>l. CHR ''x'' \<in> set l) None 1
       [\<lparr>parts = [''a.pdf''], is_file = True,
          extracted = Inr [(''page 1'', ''x1'' @ [CHR 0x0A] @ ''x2''), (''page 2'', ''x3'')]\<rparr>])))
   \<and> docgrep_walk (\<lambda>l. CHR ''x'' \<in> set l) None 1
       ([\<lparr>parts = [''a.pdf''], is_file = True,
           extracted = Inr [(''page 1'', ''x1'' @ [CHR 0x0A] @ ''x2''), (''page 2'', ''x3'')]\<rparr>]
        @ [\<lparr>parts = [''b.pdf''], is_file = True, extracted = Inr [(''page 1'', ''x4'')]\<rparr>])
     = \<lparr>results = [''a.pdf:page 1:x1''],
        calls = [ExtractText [''a.pdf''], RegexSearch [''a.pdf''] ''page 1'' ''x1'']\<rparr>
   \<and> scan_lines (\<lambda>l. CHR ''x'' \<in> set l) 1 [''a.pdf''] ''page 1'' [''x2'']
       \<lparr>results = [''a.pdf:page 1:x1''],
        calls = [ExtractText [''a.pdf''], RegexSearch [''a.pdf''] ''page 1'' ''x1'']\<rparr>
     = \<lparr>results = [''a.pdf:page 1:x1''],
        calls = [ExtractText [''a.pdf''], RegexSearch [''a.pdf''] ''page 1'' ''x1'']\<rparr>"
proof -
  have one: "docgrep_walk (\<lambda>l. CHR ''x'' \<in> set l) None 1
       [\<lparr>parts = [''a.pdf''], is_file = True,
          extracted = Inr [(''page 1'', ''x1'' @ [CHR 0x0A] @ ''x2''), (''page 2'', ''x3'')]\<rparr>]
     = \<lparr>results = [''a.pdf:page 1:x1''],
        calls = [ExtractText [''a.pdf''], RegexSearch [''a.pdf''] ''page 1'' ''x1'']\<rparr>"
    by code_simp
  have full: "(1::int) \<le> int (length (results (docgrep_walk (\<lambda>l. CHR ''x'' \<in> set l) None 1
       [\<lparr>parts = [''a.pdf''], is_file = True,
          extracted = Inr [(''page 1'', ''x1'' @ [CHR 0x0A] @ ''x2''), (''page 2'', ''x3'')]\<rparr>])))"
    unfolding one by simp
  have full': "(1::int) \<le> int (length (results \<lparr>results = [''a.pdf:page 1:x1''],
        calls = [ExtractText [''a.pdf''], RegexSearch [''a.pdf''] ''page 1'' ''x1'']\<rparr>))"
    by simp
  note inst = docgrep_result_cap [of "\<lambda>l. CHR ''x'' \<in> set l" None 1
       "[\<lparr>parts = [''a.pdf''], is_file = True,
          extracted = Inr [(''page 1'', ''x1'' @ [CHR 0x0A] @ ''x2''), (''page 2'', ''x3'')]\<rparr>]"
       "\<lparr>results = [''a.pdf:page 1:x1''],
        calls = [ExtractText [''a.pdf''], RegexSearch [''a.pdf''] ''page 1'' ''x1'']\<rparr>"
       "{}" "[]" "[''a.pdf'']" "[]" "''page 1''" "[''x2'']"
       "[\<lparr>parts = [''b.pdf''], is_file = True, extracted = Inr [(''page 1'', ''x4'')]\<rparr>]"]
  from inst full full' one show ?thesis by simp
qed

text \<open>
  Claim C3. An entry that is searched and whose extraction fails contributes exactly the
  one line \<open>relative_path:error:message\<close>: the results of the whole walk are the results
  of the entries before it, that line, and the results of the entries after it, cut at
  \<open>max_results\<close>. The walk goes on after the failure: when it ends below the cap,
  \<open>extract_text\<close> was called on every entry that is searched. The witness is a directory
  of ten files, the fourth corrupt: nine matches and one error line.
\<close>

theorem extraction_failure_isolated:
  assumes "eligible (allowed_exts file_types) e" "extracted e = Inl msg"
  shows "results (docgrep_walk regex file_types max_results (before @ e # after))
           = take (nat max_results)
               (results (docgrep_walk regex file_types max_results before)
                @ [path_str (parts e) @ '':error:'' @ msg]
                @ results (docgrep_walk regex file_types max_results after))
         \<and> (int (length (results (docgrep_walk regex file_types max_results (before @ e # after))))
               < max_results \<longrightarrow>
             (\<forall>f\<in>set (before @ e # after).
                eligible (allowed_exts file_types) f \<longrightarrow>
                ExtractText (parts f)
                  \<in> set (calls (docgrep_walk regex file_types max_results (before @ e # after)))))"
proof (intro conjI impI ballI)
  let ?R = "\<lambda>es. concat (map (entry_results regex (allowed_exts file_types)) es)"
  have e: "entry_results regex (allowed_exts file_types) e = [path_str (parts e) @ '':error:'' @ msg]"
    using assms by (simp add: entry_results_def)
  have cut: "take n (take n xs @ y # take n ys) = take n (xs @ y # ys)" for n and xs ys :: "string list" and y
    by (cases "n \<le> length xs") (auto simp: min_def take_Cons')
  show "results (docgrep_walk regex file_types max_results (before @ e # after))
           = take (nat max_results)
               (results (docgrep_walk regex file_types max_results before)
                @ [path_str (parts e) @ '':error:'' @ msg]
                @ results (docgrep_walk regex file_types max_results after))"
  proof -
    have "?R (before @ e # after) = ?R before @ (path_str (parts e) @ '':error:'' @ msg) # ?R after"
      by (simp add: e)
    then have "results (docgrep_walk regex file_types max_results (before @ e # after))
                 = take (nat max_results)
                     (?R before @ (path_str (parts e) @ '':error:'' @ msg) # ?R after)"
      by (simp only: docgrep_walk_results)
    also have "\<dots> = take (nat max_results)
                     (take (nat max_results) (?R before)
                      @ (path_str (parts e) @ '':error:'' @ msg) # take (nat max_results) (?R after))"
      by (rule cut [symmetric])
    finally show ?thesis by (simp only: docgrep_walk_results append_Cons append_Nil)
  qed
next
  fix f
  assume "int (length (results (docgrep_walk regex file_types max_results (before @ e # after)))) < max_results"
    and "f \<in> set (before @ e # after)" and "eligible (allowed_exts file_types) f"
  then show "ExtractText (parts f)
                  \<in> set (calls (docgrep_walk regex file_types max_results (before @ e # after)))"
    unfolding docgrep_walk_def by (rule walk_extracts_all)
qed

theorem extraction_failure_isolated_witness:
  "eligible (allowed_exts None) \<lparr>parts = [''d.pdf''], is_file = True, extracted = Inl ''bad''\<rparr>
   \<and> results (docgrep_walk (\<lambda>l. CHR ''x'' \<in> set l) None 100
        (map (\<lambda>n. \<lparr>parts = [n @ ''.pdf''], is_file = True, extracted = Inr [(''page 1'', ''x'')]\<rparr>)
           [''a'', ''b'', ''c'']
         @ \<lparr>parts = [''d.pdf''], is_file = True, extracted = Inl ''bad''\<rparr>
         # map (\<lambda>n. \<lparr>parts = [n @ ''.pdf''], is_file = True, extracted = Inr [(''page 1'', ''x'')]\<rparr>)
             [''e'', ''f'', ''g'', ''h'', ''i'', ''j'']))
     = [''a.pdf:page 1:x'', ''b.pdf:page 1:x'', ''c.pdf:page 1:x'', ''d.pdf:error:bad'',
        ''e.pdf:page 1:x'', ''f.pdf:page 1:x'', ''g.pdf:page 1:x'', ''h.pdf:page 1:x'',
        ''i.pdf:page 1:x'', ''j.pdf:page 1:x'']
   \<and> ExtractText [''j.pdf'']
       \<in> set (calls (docgrep_walk (\<lambda>l. CHR ''x'' \<in> set l) None 100
        (map (\<lambda>n. \<lparr>parts = [n @ ''.pdf''], is_file = True, extracted = Inr [(''page 1'', ''x'')]\<rparr>)
           [''a'', ''b'', ''c'']
         @ \<lparr>parts = [''d.pdf''], is_file = True, extracted = Inl ''bad''\<rparr>
         # map (\<lambda>n. \<lparr>parts = [n @ ''.pdf''], is_file = True, extracted = Inr [(''page 1'', ''x'')]\<rparr>)
             [''e'', ''f'', ''g'', ''h'', ''i'', ''j''])))"
proof -
  let ?ok = "\<lambda>n. \<lparr>parts = [n @ ''.pdf''], is_file = True, extracted = Inr [(''page 1'', ''x'')]\<rparr>"
  let ?bad = "\<lparr>parts = [''d.pdf''], is_file = True, extracted = Inl ''bad''\<rparr>"
  let ?rx = "\<lambda>l. CHR ''x'' \<in> set l"
  have el: "eligible (allowed_exts None) ?bad" by code_simp
  have ex: "extracted ?bad = Inl ''bad''" by simp
  have b: "results (docgrep_walk ?rx None 100 (map ?ok [''a'', ''b'', ''c'']))
             = [''a.pdf:page 1:x'', ''b.pdf:page 1:x'', ''c.pdf:page 1:x'']"
    by code_simp
  have a: "results (docgrep_walk ?rx None 100 (map ?ok [''e'', ''f'', ''g'', ''h'', ''i'', ''j'']))
             = [''e.pdf:page 1:x'', ''f.pdf:page 1:x'', ''g.pdf:page 1:x'', ''h.pdf:page 1:x'',
                ''i.pdf:page 1:x'', ''j.pdf:page 1:x'']"
    by code_simp
  have p: "path_str (parts ?bad) = ''d.pdf''" by (simp add: path_str_def)
  have elj: "eligible (allowed_exts None) (?ok ''j'')" by code_simp
  note inst = extraction_failure_isolated [OF el ex, of ?rx 100 "map ?ok [''a'', ''b'', ''c'']"
      "map ?ok [''e'', ''f'', ''g'', ''h'', ''i'', ''j'']"]
  have r: "results (docgrep_walk ?rx None 100
        (map ?ok [''a'', ''b'', ''c''] @ ?bad # map ?ok [''e'', ''f'', ''g'', ''h'', ''i'', ''j'']))
     = [''a.pdf:page 1:x'', ''b.pdf:page 1:x'', ''c.pdf:page 1:x'', ''d.pdf:error:bad'',
        ''e.pdf:page 1:x'', ''f.pdf:page 1:x'', ''g.pdf:page 1:x'', ''h.pdf:page 1:x'',
        ''i.pdf:page 1:x'', ''j.pdf:page 1:x'']"
    unfolding inst [THEN conjunct1] a b p by simp
  have "int (length (results (docgrep_walk ?rx None 100
        (map ?ok [''a'', ''b'', ''c''] @ ?bad # map ?ok [''e'', ''f'', ''g'', ''h'', ''i'', ''j''])))) < 100"
    unfolding r by simp
  from inst [THEN conjunct2, rule_format, OF this _ elj]
  have "ExtractText (parts (?ok ''j''))
       \<in> set (calls (docgrep_walk ?rx None 100
        (map ?ok [''a'', ''b'', ''c''] @ ?bad # map ?ok [''e'', ''f'', ''g'', ''h'', ''i'', ''j''])))"
    by simp
  then show ?thesis using el r by simp
qed

text \<open>
  Claim C7. Entries with a path component that starts with a dot have no effect on the
  walk: it is the walk over the other entries only. Every recorded call of \<open>extract_text\<close>
  or \<open>regex.search\<close> is about an entry whose path has no such component, and every result
  line was written for such an entry: it starts with that entry's relative path and a
  colon.
\<close>

theorem hidden_entries_never_visited:
  "docgrep_walk regex file_types max_results entries
     = docgrep_walk regex file_types max_results (filter (\<lambda>e. \<not> hidden (parts e)) entries)
   \<and> (\<forall>c\<in>set (calls (docgrep_walk regex file_types max_results entries)).
         \<not> hidden (call_path c) \<and> call_path c \<in> parts ` set entries)
   \<and> (\<forall>r\<in>set (results (docgrep_walk regex file_types max_results entries)).
         \<exists>e\<in>set entries. \<not> hidden (parts e) \<and> (\<exists>rest. r = path_str (parts e) @ '':'' @ rest))"
proof (intro conjI ballI)
  show "docgrep_walk regex file_types max_results entries
     = docgrep_walk regex file_types max_results (filter (\<lambda>e. \<not> hidden (parts e)) entries)"
    by (simp add: docgrep_walk_def walk_skips_hidden)
next
  fix c
  assume "c \<in> set (calls (docgrep_walk regex file_types max_results entries))"
  then have "\<exists>e\<in>set entries. eligible (allowed_exts file_types) e \<and> call_path c = parts e"
    unfolding docgrep_walk_def by (auto dest: walk_calls)
  then show "\<not> hidden (call_path c)" and "call_path c \<in> parts ` set entries"
    by (auto simp: eligible_def)
next
  fix r
  assume "r \<in> set (results (docgrep_walk regex file_types max_results entries))"
  then have "r \<in> set (concat (map (entry_results regex (allowed_exts file_types)) entries))"
    unfolding docgrep_walk_results by (rule in_set_takeD)
  then obtain e where "e \<in> set entries" "r \<in> set (entry_results regex (allowed_exts file_types) e)"
    by auto
  then show "\<exists>e\<in>set entries. \<not> hidden (parts e) \<and> (\<exists>rest. r = path_str (parts e) @ '':'' @ rest)"
    using entry_results_origin [of r regex "allowed_exts file_types" e]
    by (auto simp: eligible_def)
qed

theorem hidden_entries_never_visited_witness:
  "docgrep_walk (\<lambda>l. CHR ''x'' \<in> set l) None 100
     [\<lparr>parts = [''.git'', ''b.pdf''], is_file = True, extracted = Inr [(''page 1'', ''x1'')]\<rparr>,
      \<lparr>parts = [''a.pdf''], is_file = True, extracted = Inr [(''page 1'', ''x2'')]\<rparr>,
      \<lparr>parts = [''d'', ''.c.pdf''], is_file = True, extracted = Inl ''bad''\<rparr>]
   = \<lparr>results = [''a.pdf:page 1:x2''],
      calls = [ExtractText [''a.pdf''], RegexSearch [''a.pdf''] ''page 1'' ''x2'']\<rparr>
   \<and> \<not> hidden (call_path (ExtractText [''a.pdf'']))
   \<and> \<not> hidden (call_path (RegexSearch [''a.pdf''] ''page 1'' ''x2''))"
proof -
  let ?rx = "\<lambda>l. CHR ''x'' \<in> set l"
  let ?es = "[\<lparr>parts = [''.git'', ''b.pdf''], is_file = True, extracted = Inr [(''page 1'', ''x1'')]\<rparr>,
      \<lparr>parts = [''a.pdf''], is_file = True, extracted = Inr [(''page 1'', ''x2'')]\<rparr>,
      \<lparr>parts = [''d'', ''.c.pdf''], is_file = True, extracted = Inl ''bad''\<rparr>]"
  have f: "filter (\<lambda>e. \<not> hidden (parts e)) ?es
             = [\<lparr>parts = [''a.pdf''], is_file = True, extracted = Inr [(''page 1'', ''x2'')]\<rparr>]"
    by (simp add: hidden_def)
  have v: "docgrep_walk ?rx None 100
             [\<lparr>parts = [''a.pdf''], is_file = True, extracted = Inr [(''page 1'', ''x2'')]\<rparr>]
           = \<lparr>results = [''a.pdf:page 1:x2''],
              calls = [ExtractText [''a.pdf''], RegexSearch [''a.pdf''] ''page 1'' ''x2'']\<rparr>"
    by code_simp
  note inst = hidden_entries_never_visited [of ?rx None 100 ?es]
  have w: "docgrep_walk ?rx None 100 ?es
           = \<lparr>results = [''a.pdf:page 1:x2''],
              calls = [ExtractText [''a.pdf''], RegexSearch [''a.pdf''] ''page 1'' ''x2'']\<rparr>"
    using inst [THEN conjunct1] unfolding f v .
  have "\<forall>c\<in>set (calls (docgrep_walk ?rx None 100 ?es)). \<not> hidden (call_path c)"
    using inst [THEN conjunct2, THEN conjunct1] by blast
  then show ?thesis unfolding w by simp
qed

end
